theory Spec2Isabelle
  imports Main "HOL-Library.Word" "HOL-Library.Multiset"
begin

section \<open>The graffiti wall: record codec, wall reader and transaction assembly\<close>

text \<open>
  A shallow embedding of the wall component (\<^verbatim>\<open>GraffitiWallComponent\<close>): the helper
  \<^verbatim>\<open>serializeGraffitiData\<close> that builds the 80-byte instruction payload, the callback
  \<^verbatim>\<open>fetchWallData\<close> that parses the account buffer, and the handler
  \<^verbatim>\<open>handleAddToWall\<close> that assembles the transaction.

  Data: bytes are 8-bit words, a JavaScript string is the list of its UTF-16 code units
  (16-bit words), a \<^verbatim>\<open>BigInt\<close> is an \<open>int\<close>. A JavaScript number that holds an integer
  is the \<open>int\<close> it denotes. Exceptions are values of type \<open>exn\<close> on the left of a sum.
  A \<^verbatim>\<open>Uint8Array\<close> that the code only reads and writes through its elements is the list
  of its bytes; the account data, which the code also reads through its \<^verbatim>\<open>buffer\<close>, is
  a view on an underlying buffer.
\<close>

type_synonym byte = "8 word"
type_synonym code_unit = "16 word"
type_synonym jsstring = "code_unit list"

datatype exn = RangeError | BorshError | External string

subsection \<open>Platform text codecs: \<^verbatim>\<open>TextEncoder\<close> and \<^verbatim>\<open>TextDecoder\<close>\<close>

text \<open>
  \<^verbatim>\<open>new TextEncoder().encode(s)\<close> first converts the string to a sequence of Unicode
  scalar values: a lead surrogate followed by a trail surrogate is one supplementary code
  point, any other surrogate is replaced by U+FFFD. Each scalar value is then written in
  UTF-8. Shifts and masks are written arithmetically: \<open>cp >> 6\<close> is \<open>cp div 64\<close> and
  \<open>cp & 0x3F\<close> is \<open>cp mod 64\<close>.
\<close>

definition is_lead :: "nat \<Rightarrow> bool" where
  "is_lead c = (0xD800 \<le> c \<and> c \<le> 0xDBFF)"

definition is_trail :: "nat \<Rightarrow> bool" where
  "is_trail c = (0xDC00 \<le> c \<and> c \<le> 0xDFFF)"

definition is_surrogate :: "nat \<Rightarrow> bool" where
  "is_surrogate c = (0xD800 \<le> c \<and> c \<le> 0xDFFF)"

fun code_points :: "jsstring \<Rightarrow> nat list" where
  "code_points [] = []"
| "code_points [c] = (if is_surrogate (unat c) then [0xFFFD] else [unat c])"
| "code_points (c # d # cs) =
     (if is_lead (unat c) \<and> is_trail (unat d)
      then (0x10000 + (unat c - 0xD800) * 0x400 + (unat d - 0xDC00)) # code_points cs
      else if is_surrogate (unat c) then 0xFFFD # code_points (d # cs)
      else unat c # code_points (d # cs))"

definition utf8_encode_cp :: "nat \<Rightarrow> byte list" where
  "utf8_encode_cp cp =
     (if cp < 0x80 then [of_nat cp]
      else if cp < 0x800 then [of_nat (0xC0 + cp div 64), of_nat (0x80 + cp mod 64)]
      else if cp < 0x10000 then
        [of_nat (0xE0 + cp div 4096), of_nat (0x80 + (cp div 64) mod 64),
         of_nat (0x80 + cp mod 64)]
      else
        [of_nat (0xF0 + cp div 262144), of_nat (0x80 + (cp div 4096) mod 64),
         of_nat (0x80 + (cp div 64) mod 64), of_nat (0x80 + cp mod 64)])"

definition TextEncoder_encode :: "jsstring \<Rightarrow> byte list" where
  "TextEncoder_encode s = concat (map utf8_encode_cp (code_points s))"

text \<open>
  \<^verbatim>\<open>new TextDecoder().decode(bytes)\<close> is the UTF-8 decoder of the Encoding Standard in
  replacement mode: a state machine over the bytes with the code point under construction,
  the number of continuation bytes seen and needed, and the bounds allowed for the next
  continuation byte. A byte that cannot continue the sequence yields U+FFFD and is
  processed again from the initial state; an unfinished sequence at the end of the input
  yields U+FFFD. The arguments are \<open>cp seen needed lower upper\<close>.
\<close>

function utf8_decode :: "nat \<Rightarrow> nat \<Rightarrow> nat \<Rightarrow> nat \<Rightarrow> nat \<Rightarrow> nat list \<Rightarrow> nat list" where
  "utf8_decode cp seen needed lo hi [] = (if needed \<noteq> 0 then [0xFFFD] else [])"
| "utf8_decode cp seen needed lo hi (b # bs) =
     (if needed = 0 then
        (if b \<le> 0x7F then b # utf8_decode 0 0 0 0x80 0xBF bs
         else if 0xC2 \<le> b \<and> b \<le> 0xDF then utf8_decode (b mod 32) 0 1 0x80 0xBF bs
         else if 0xE0 \<le> b \<and> b \<le> 0xEF then
           utf8_decode (b mod 16) 0 2 (if b = 0xE0 then 0xA0 else 0x80)
             (if b = 0xED then 0x9F else 0xBF) bs
         else if 0xF0 \<le> b \<and> b \<le> 0xF4 then
           utf8_decode (b mod 8) 0 3 (if b = 0xF0 then 0x90 else 0x80)
             (if b = 0xF4 then 0x8F else 0xBF) bs
         else 0xFFFD # utf8_decode 0 0 0 0x80 0xBF bs)
      else if b < lo \<or> hi < b then 0xFFFD # utf8_decode 0 0 0 0x80 0xBF (b # bs)
      else if seen + 1 \<noteq> needed then
        utf8_decode (cp * 64 + b mod 64) (seen + 1) needed 0x80 0xBF bs
      else (cp * 64 + b mod 64) # utf8_decode 0 0 0 0x80 0xBF bs)"
  by pat_completeness auto
termination
  by (relation "measure (\<lambda>(cp, seen, needed, lo, hi, bs).
        2 * length bs + (if needed = 0 then 0 else 1))") auto

text \<open>
  The decoder object is created with the default \<^verbatim>\<open>ignoreBOM: false\<close>: a U+FEFF at the
  very start of the output (the bytes EF BB BF at the start of the input) is dropped. The
  code points are returned as a JavaScript string, supplementary ones as surrogate pairs.
\<close>

definition strip_bom :: "nat list \<Rightarrow> nat list" where
  "strip_bom cps = (case cps of [] \<Rightarrow> [] | c # cs \<Rightarrow> if c = 0xFEFF then cs else c # cs)"

definition utf16_units :: "nat \<Rightarrow> code_unit list" where
  "utf16_units cp =
     (if cp < 0x10000 then [of_nat cp]
      else [of_nat (0xD800 + (cp - 0x10000) div 0x400),
            of_nat (0xDC00 + (cp - 0x10000) mod 0x400)])"

definition TextDecoder_decode :: "byte list \<Rightarrow> jsstring" where
  "TextDecoder_decode bs =
     concat (map utf16_units (strip_bom (utf8_decode 0 0 0 0x80 0xBF (map unat bs))))"

subsection \<open>Typed arrays\<close>

text \<open>
  \<^verbatim>\<open>a.slice(s, e)\<close> with non-negative indices clamps both ends to the array;
  \<^verbatim>\<open>target.set(src)\<close> copies \<open>src\<close> to the front of \<open>target\<close> and throws a
  \<^verbatim>\<open>RangeError\<close> when \<open>src\<close> is longer than \<open>target\<close>.
\<close>

definition Uint8Array_slice :: "'a list \<Rightarrow> nat \<Rightarrow> nat \<Rightarrow> 'a list" where
  "Uint8Array_slice xs s e = take (e - s) (drop s xs)"

definition Uint8Array_new :: "nat \<Rightarrow> byte list" where
  "Uint8Array_new n = replicate n 0"

definition Uint8Array_set :: "byte list \<Rightarrow> byte list \<Rightarrow> exn + byte list" where
  "Uint8Array_set target src =
     (if length src > length target then Inl RangeError
      else Inr (src @ drop (length src) target))"

text \<open>
  A \<^verbatim>\<open>Uint8Array\<close> is a view on an \<^verbatim>\<open>ArrayBuffer\<close>: its elements are the \<open>length\<close>
  bytes of \<open>buffer\<close> that start at \<open>byteOffset\<close>. Indexing, \<^verbatim>\<open>slice\<close> and \<^verbatim>\<open>length\<close>
  go through the elements; \<^verbatim>\<open>new DataView(a.buffer)\<close> spans the whole underlying buffer
  from its byte 0, whatever the offset and the length of the array are.
\<close>

record Uint8Array =
  buffer :: "byte list"
  byteOffset :: nat
  length_u8 :: nat

definition elems :: "Uint8Array \<Rightarrow> byte list" where
  "elems a = take (length_u8 a) (drop (byteOffset a) (buffer a))"

text \<open>
  The array with the given elements in a buffer that has \<open>before\<close> in front of them and
  \<open>after\<close> behind them (every array is of this form), and the array that covers its
  whole buffer.
\<close>

definition view :: "byte list \<Rightarrow> byte list \<Rightarrow> byte list \<Rightarrow> Uint8Array" where
  "view before xs after =
     \<lparr>buffer = before @ xs @ after, byteOffset = length before, length_u8 = length xs\<rparr>"

definition whole :: "byte list \<Rightarrow> Uint8Array" where
  "whole xs = \<lparr>buffer = xs, byteOffset = 0, length_u8 = length xs\<rparr>"

subsection \<open>The append payload: \<^verbatim>\<open>serializeGraffitiData\<close>\<close>

record params =
  p_name :: "byte list"
  p_message :: "byte list"

text \<open>
  \<^verbatim>\<open>borsh.serialize\<close> for the schema \<^verbatim>\<open>{name: [u8; 16], message: [u8; 64]}\<close>: a
  fixed-length array is written without a length prefix, field after field; a value of
  another length is rejected.
\<close>

definition borsh_serialize :: "params \<Rightarrow> exn + byte list" where
  "borsh_serialize p =
     (if length (p_name p) \<noteq> 16 then Inl BorshError
      else if length (p_message p) \<noteq> 64 then Inl BorshError
      else Inr (p_name p @ p_message p))"

definition serializeGraffitiData :: "jsstring \<Rightarrow> jsstring \<Rightarrow> exn + byte list" where
  "serializeGraffitiData name message =
     (let nameArray = Uint8Array_new 16;
          messageArray = Uint8Array_new 64;
          nameBytes = TextEncoder_encode name;
          messageBytes = TextEncoder_encode message
      in case Uint8Array_set nameArray (Uint8Array_slice nameBytes 0 16) of
           Inl e \<Rightarrow> Inl e
         | Inr nameArray' \<Rightarrow>
             (case Uint8Array_set messageArray (Uint8Array_slice messageBytes 0 64) of
                Inl e \<Rightarrow> Inl e
              | Inr messageArray' \<Rightarrow>
                  borsh_serialize \<lparr>p_name = nameArray', p_message = messageArray'\<rparr>))"

subsection \<open>Reading the wall: \<^verbatim>\<open>fetchWallData\<close>\<close>

record GraffitiMessage =
  timestamp :: int
  name :: jsstring
  message :: jsstring

text \<open>
  The reads of a \<^verbatim>\<open>DataView\<close> on a buffer, given as the list of its bytes. Both are
  little-endian (second argument \<^verbatim>\<open>true\<close>) and throw a \<^verbatim>\<open>RangeError\<close> when the read
  would pass the end of the buffer.
\<close>

definition le_nat :: "byte list \<Rightarrow> nat" where
  "le_nat bs = foldr (\<lambda>b acc. unat b + 256 * acc) bs 0"

definition getUint32 :: "byte list \<Rightarrow> nat \<Rightarrow> exn + nat" where
  "getUint32 buf off =
     (if length buf < off + 4 then Inl RangeError
      else Inr (le_nat (Uint8Array_slice buf off (off + 4))))"

definition getBigInt64 :: "byte list \<Rightarrow> nat \<Rightarrow> exn + int" where
  "getBigInt64 buf off =
     (if length buf < off + 8 then Inl RangeError
      else (let u = le_nat (Uint8Array_slice buf off (off + 8))
            in Inr (if u < 2 ^ 63 then int u else int u - 2 ^ 64)))"

text \<open>
  \<^verbatim>\<open>Number(bigint)\<close> rounds to the nearest double, ties to even: an integer of at most 53
  bits is kept, a longer one is rounded to 53 significant bits. The result is an integer
  again.
\<close>

fun bit_length :: "nat \<Rightarrow> nat" where
  "bit_length n = (if n = 0 then 0 else Suc (bit_length (n div 2)))"

definition Number_of_BigInt :: "int \<Rightarrow> int" where
  "Number_of_BigInt v =
     (let a = nat \<bar>v\<bar>; n = bit_length a
      in if n \<le> 53 then v
         else (let e = n - 53; q = a div 2 ^ e; r = a mod 2 ^ e;
                   q' = (if 2 ^ e < 2 * r \<or> (2 * r = 2 ^ e \<and> odd q) then q + 1 else q)
               in sgn v * int (q' * 2 ^ e)))"

text \<open>
  The body of the loop \<^verbatim>\<open>for (let i = 0; i < messageCount; i++)\<close>: one record read
  at the running \<open>offset\<close>, returned with the offset after it. The timestamp is read by
  \<^verbatim>\<open>new DataView(wallData.buffer).getBigInt64(offset, true)\<close>, at \<open>offset\<close> in the
  underlying buffer; the two text fields are read by \<^verbatim>\<open>wallData.slice\<close>, at their
  offsets in the array.
\<close>

definition read_record :: "Uint8Array \<Rightarrow> nat \<Rightarrow> exn + GraffitiMessage \<times> nat" where
  "read_record wallData offset =
     (case getBigInt64 (buffer wallData) offset of
        Inl e \<Rightarrow> Inl e
      | Inr ts \<Rightarrow>
         (let offset1 = offset + 8;
              nameBytes = Uint8Array_slice (elems wallData) offset1 (offset1 + 16);
              nm = TextDecoder_decode (filter (\<lambda>x. x \<noteq> 0) nameBytes);
              offset2 = offset1 + 16;
              messageBytes = Uint8Array_slice (elems wallData) offset2 (offset2 + 64);
              msg = TextDecoder_decode (filter (\<lambda>x. x \<noteq> 0) messageBytes);
              offset3 = offset2 + 64
          in Inr (\<lparr>timestamp = Number_of_BigInt ts, name = nm, message = msg\<rparr>, offset3)))"

text \<open>The loop itself, with the array \<open>messages\<close> it pushes to.\<close>

function read_messages ::
  "Uint8Array \<Rightarrow> nat \<Rightarrow> nat \<Rightarrow> nat \<Rightarrow> GraffitiMessage list \<Rightarrow> exn + GraffitiMessage list" where
  "read_messages wallData messageCount i offset messages =
     (if i < messageCount then
        (case read_record wallData offset of
           Inl e \<Rightarrow> Inl e
         | Inr (m, offset') \<Rightarrow>
             read_messages wallData messageCount (i + 1) offset' (messages @ [m]))
      else Inr messages)"
  by pat_completeness auto
termination
  by (relation "measure (\<lambda>(wallData, messageCount, i, offset, messages). messageCount - i)") auto

text \<open>
  The count is read by \<^verbatim>\<open>new DataView(wallData.buffer).getUint32(0, true)\<close>, from the
  first four bytes of the underlying buffer; the records follow from offset 4.
\<close>

definition parse_wall :: "Uint8Array \<Rightarrow> exn + GraffitiMessage list" where
  "parse_wall wallData =
     (case getUint32 (buffer wallData) 0 of
        Inl e \<Rightarrow> Inl e
      | Inr messageCount \<Rightarrow> read_messages wallData messageCount 0 4 [])"

text \<open>
  \<^verbatim>\<open>messages.sort((a, b) => b.timestamp - a.timestamp)\<close>: the array sort is stable, an
  element goes before another when the comparator is negative and keeps its place among
  those it compares equal to. The difference of two integer-valued doubles has the sign of
  the exact difference.
\<close>

fun insert_by :: "('a \<Rightarrow> 'a \<Rightarrow> int) \<Rightarrow> 'a \<Rightarrow> 'a list \<Rightarrow> 'a list" where
  "insert_by cmp x [] = [x]"
| "insert_by cmp x (y # ys) =
     (if cmp x y \<le> 0 then x # y # ys else y # insert_by cmp x ys)"

definition Array_sort :: "('a \<Rightarrow> 'a \<Rightarrow> int) \<Rightarrow> 'a list \<Rightarrow> 'a list" where
  "Array_sort cmp xs = foldr (insert_by cmp) xs []"

definition by_recency :: "GraffitiMessage \<Rightarrow> GraffitiMessage \<Rightarrow> int" where
  "by_recency a b = timestamp b - timestamp a"

text \<open>
  The component state the callback writes (\<^verbatim>\<open>setWallData\<close>, \<^verbatim>\<open>setError\<close>), and the
  outcome of \<^verbatim>\<open>await client.readAccountInfo(accountPubkey)\<close>: an exception, no account,
  or an account whose \<open>data\<close> may be missing.
\<close>

datatype ui_error =
  Account_not_found
  | Failed_to_fetch_wall_data exn
  | Failed_to_add_to_wall exn
  | Requirements_missing

record component_state =
  wallData :: "GraffitiMessage list"
  error :: "ui_error option"

record account_info =
  data :: "Uint8Array option"

definition fetchWallData ::
  "exn + account_info option \<Rightarrow> component_state \<Rightarrow> component_state" where
  "fetchWallData response st =
     (case response of
        Inl e \<Rightarrow> st\<lparr>error := Some (Failed_to_fetch_wall_data e)\<rparr>
      | Inr None \<Rightarrow> st\<lparr>error := Some Account_not_found\<rparr>
      | Inr (Some userAccount) \<Rightarrow>
          (case data userAccount of
             None \<Rightarrow> st\<lparr>wallData := [], error := None\<rparr>
           | Some bytes \<Rightarrow>
               if length_u8 bytes < 4 then st\<lparr>wallData := [], error := None\<rparr>
               else (case parse_wall bytes of
                       Inl e \<Rightarrow> st\<lparr>error := Some (Failed_to_fetch_wall_data e)\<rparr>
                     | Inr messages \<Rightarrow> st\<lparr>wallData := Array_sort by_recency messages\<rparr>)))"

subsection \<open>Assembling the transaction: \<^verbatim>\<open>handleAddToWall\<close>\<close>

type_synonym pubkey = "byte list"

record AccountMeta =
  pubkey :: pubkey
  is_signer :: bool
  is_writable :: bool

record Instruction =
  program_id :: pubkey
  accounts :: "AccountMeta list"
  instruction_data :: "byte list"

record Message =
  signers :: "pubkey list"
  instructions :: "Instruction list"

record RuntimeTransaction =
  version :: nat
  signatures :: "byte list list"
  tx_message :: Message

record wallet_state =
  isConnected :: bool
  publicKey :: "jsstring option"

text \<open>
  The SDK and platform functions the handler calls are parameters: \<^verbatim>\<open>PubkeyUtil.fromHex\<close>
  (given the possibly missing key text), \<^verbatim>\<open>MessageUtil.serialize\<close>,
  \<^verbatim>\<open>MessageUtil.hash\<close> and the base64 reading of \<^verbatim>\<open>Buffer.from(s, 'base64')\<close>.
\<close>

record sdk =
  fromHex :: "jsstring option \<Rightarrow> exn + pubkey"
  serialize :: "Message \<Rightarrow> exn + byte list"
  hash :: "Message \<Rightarrow> exn + byte list"
  from_base64 :: "jsstring \<Rightarrow> byte list"

text \<open>\<^verbatim>\<open>Buffer.from(bytes).toString('hex')\<close>: two lower-case digits for each byte.\<close>

definition hex_digit :: "nat \<Rightarrow> code_unit" where
  "hex_digit d = (if d < 10 then of_nat (48 + d) else of_nat (87 + d))"

definition to_hex :: "byte list \<Rightarrow> jsstring" where
  "to_hex bs = concat (map (\<lambda>b. [hex_digit (unat b div 16), hex_digit (unat b mod 16)]) bs)"

text \<open>\<^verbatim>\<open>s.trim()\<close> removes white space and line terminators from both ends.\<close>

definition is_white_space :: "code_unit \<Rightarrow> bool" where
  "is_white_space c =
     (let u = unat c
      in u = 0x09 \<or> u = 0x0A \<or> u = 0x0B \<or> u = 0x0C \<or> u = 0x0D \<or> u = 0x20 \<or> u = 0xA0
         \<or> u = 0x1680 \<or> (0x2000 \<le> u \<and> u \<le> 0x200A) \<or> u = 0x2028 \<or> u = 0x2029
         \<or> u = 0x202F \<or> u = 0x205F \<or> u = 0x3000 \<or> u = 0xFEFF)"

definition trim :: "jsstring \<Rightarrow> jsstring" where
  "trim s = rev (dropWhile is_white_space (rev (dropWhile is_white_space s)))"

text \<open>
  The handler up to the call of \<^verbatim>\<open>client.sendTransaction\<close>: the result is the envelope
  it submits, or the error it shows instead. \<open>signMessage\<close> is the wallet's signer.
\<close>

definition handleAddToWall ::
  "sdk \<Rightarrow> jsstring option \<Rightarrow> pubkey \<Rightarrow> (jsstring \<Rightarrow> exn + jsstring) \<Rightarrow> wallet_state \<Rightarrow> bool
     \<Rightarrow> jsstring \<Rightarrow> jsstring \<Rightarrow> ui_error + RuntimeTransaction" where
  "handleAddToWall lib PROGRAM_PUBKEY accountPubkey signMessage wallet isAccountCreated nm msg =
     (if trim msg = [] \<or> trim nm = [] \<or> \<not> isAccountCreated \<or> \<not> isConnected wallet
      then Inl Requirements_missing
      else
       (case serializeGraffitiData nm msg of
          Inl e \<Rightarrow> Inl (Failed_to_add_to_wall e)
        | Inr payload \<Rightarrow>
       (case fromHex lib PROGRAM_PUBKEY of
          Inl e \<Rightarrow> Inl (Failed_to_add_to_wall e)
        | Inr program \<Rightarrow>
       (case fromHex lib (publicKey wallet) of
          Inl e \<Rightarrow> Inl (Failed_to_add_to_wall e)
        | Inr signer \<Rightarrow>
          (let instruction =
                 \<lparr>program_id = program,
                  accounts = [\<lparr>pubkey = signer, is_signer = True, is_writable = False\<rparr>,
                              \<lparr>pubkey = accountPubkey, is_signer = False, is_writable = True\<rparr>],
                  instruction_data = payload\<rparr>;
               messageObj = \<lparr>signers = [signer], instructions = [instruction]\<rparr>
           in
       (case serialize lib messageObj of
          Inl e \<Rightarrow> Inl (Failed_to_add_to_wall e)
        | Inr messageBytes \<Rightarrow>
       (case hash lib messageObj of
          Inl e \<Rightarrow> Inl (Failed_to_add_to_wall e)
        | Inr h \<Rightarrow>
       (case signMessage (to_hex h) of
          Inl e \<Rightarrow> Inl (Failed_to_add_to_wall e)
        | Inr signature \<Rightarrow>
          (let decoded = from_base64 lib signature;
               signatureBytes = Uint8Array_slice decoded 2 (length decoded)
           in Inr \<lparr>version = 0, signatures = [signatureBytes],
                   tx_message = messageObj\<rparr>)))))))))"

subsection \<open>Notions used in the statements\<close>

text \<open>
  A string is well formed when it has no unpaired surrogate: every lead surrogate is
  followed by a trail surrogate and every trail surrogate follows a lead. A string starts
  with a byte order mark when its first code unit is U+FEFF.
\<close>

fun well_formed :: "jsstring \<Rightarrow> bool" where
  "well_formed [] = True"
| "well_formed [c] = (\<not> is_surrogate (unat c))"
| "well_formed (c # d # cs) =
     (if is_lead (unat c) \<and> is_trail (unat d) then well_formed cs
      else \<not> is_surrogate (unat c) \<and> well_formed (d # cs))"

definition starts_with_BOM :: "jsstring \<Rightarrow> bool" where
  "starts_with_BOM s = (case s of [] \<Rightarrow> False | c # cs \<Rightarrow> c = 0xFEFF)"

text \<open>
  The states the decoder passes through from its initial state: after a lead byte and after
  each continuation byte, the bounds on the partial code point that make the finished one
  a non-zero code point below \<open>0x110000\<close>.
\<close>

definition decoder_inv :: "nat \<Rightarrow> nat \<Rightarrow> nat \<Rightarrow> nat \<Rightarrow> nat \<Rightarrow> bool" where
  "decoder_inv cp seen needed lo hi =
     (needed = 0 \<or>
      (0x80 \<le> lo \<and> hi \<le> 0xBF \<and>
       ((needed = 1 \<and> seen = 0 \<and> 0 < cp \<and> cp < 32) \<or>
        (needed = 2 \<and> seen = 0 \<and> cp < 16 \<and> (0 < cp \<or> 0x80 < lo)) \<or>
        (needed = 2 \<and> seen = 1 \<and> 0 < cp \<and> cp < 1024) \<or>
        (needed = 3 \<and> seen = 0 \<and> cp \<le> 4 \<and> (0 < cp \<or> 0x80 < lo) \<and> (cp < 4 \<or> hi \<le> 0x8F)) \<or>
        (needed = 3 \<and> seen = 1 \<and> 0 < cp \<and> cp < 0x110) \<or>
        (needed = 3 \<and> seen = 2 \<and> 0 < cp \<and> cp < 0x4400))))"

text \<open>
  The bytes of a sample wall of four whole records, in buffer order: timestamps 100, 300,
  200, 300, each name field holding two letters with a zero byte between them, each message
  field empty; the bytes of a wall with the first of these records alone; and the entries
  of the sample wall.
\<close>

definition sample_record :: "byte \<Rightarrow> byte \<Rightarrow> byte \<Rightarrow> byte \<Rightarrow> byte list" where
  "sample_record t0 t1 c d =
     [t0, t1, 0, 0, 0, 0, 0, 0] @ ([c, 0, d] @ replicate 13 0) @ replicate 64 0"

definition sample_wall :: "byte list" where
  "sample_wall = [4, 0, 0, 0] @ concat [sample_record 100 0 0x61 0x41, sample_record 44 1 0x62 0x42,
     sample_record 200 0 0x63 0x43, sample_record 44 1 0x64 0x44]"

definition one_record_wall :: "byte list" where
  "one_record_wall = [1, 0, 0, 0] @ sample_record 100 0 0x61 0x41"

definition sample_entries :: "GraffitiMessage list" where
  "sample_entries =
     [\<lparr>timestamp = 100, name = [0x61, 0x41], message = []\<rparr>,
      \<lparr>timestamp = 300, name = [0x62, 0x42], message = []\<rparr>,
      \<lparr>timestamp = 200, name = [0x63, 0x43], message = []\<rparr>,
      \<lparr>timestamp = 300, name = [0x64, 0x44], message = []\<rparr>]"

text \<open>A fixed-width field of the payload: the first \<open>w\<close> bytes, zero-filled.\<close>

definition zero_padded :: "nat \<Rightarrow> byte list \<Rightarrow> byte list" where
  "zero_padded w bs = take w bs @ replicate (w - length bs) 0"

text \<open>
  The entry the loop body builds from the record at an offset, when the read of its
  timestamp does not pass the end of the underlying buffer.
\<close>

definition entry_at :: "Uint8Array \<Rightarrow> nat \<Rightarrow> GraffitiMessage" where
  "entry_at a off =
     \<lparr>timestamp = Number_of_BigInt
        (let u = le_nat (Uint8Array_slice (buffer a) off (off + 8))
         in if u < 2 ^ 63 then int u else int u - 2 ^ 64),
      name = TextDecoder_decode
        (filter (\<lambda>x. x \<noteq> 0) (Uint8Array_slice (elems a) (off + 8) (off + 24))),
      message = TextDecoder_decode
        (filter (\<lambda>x. x \<noteq> 0) (Uint8Array_slice (elems a) (off + 24) (off + 88)))\<rparr>"

section \<open>Properties\<close>

declare read_messages.simps [simp del]
declare bit_length.simps [simp del]

lemma length_zero_padded: "length (zero_padded w bs) = w"
  by (simp add: zero_padded_def)

lemma set_slice_padded:
  "Uint8Array_set (Uint8Array_new w) (Uint8Array_slice bs 0 w) = Inr (zero_padded w bs)"
  by (simp add: Uint8Array_set_def Uint8Array_new_def Uint8Array_slice_def zero_padded_def min_def)

lemma serializeGraffitiData_eq:
  "serializeGraffitiData nm msg =
     Inr (zero_padded 16 (TextEncoder_encode nm) @ zero_padded 64 (TextEncoder_encode msg))"
  by (simp add: serializeGraffitiData_def Let_def set_slice_padded borsh_serialize_def
      length_zero_padded)

subsection \<open>Arrays\<close>

lemma buffer_view: "buffer (view p xs q) = p @ xs @ q"
  by (simp add: view_def)

lemma elems_view: "elems (view p xs q) = xs"
  by (simp add: view_def elems_def)

lemma buffer_whole: "buffer (whole xs) = xs"
  by (simp add: whole_def)

lemma elems_whole: "elems (whole xs) = xs"
  by (simp add: whole_def elems_def)

lemma length_u8_whole: "length_u8 (whole xs) = length xs"
  by (simp add: whole_def)

lemma elems_at_offset_0:
  assumes "byteOffset a = 0" and "k < length (elems a)"
  shows "buffer a ! k = elems a ! k"
  using assms by (simp add: elems_def)

lemma length_elems_le: "length (elems a) \<le> length (buffer a)"
  by (simp add: elems_def)

subsection \<open>The read loop\<close>

lemma read_record_eq:
  "read_record a off =
     (if length (buffer a) < off + 8 then Inl RangeError else Inr (entry_at a off, off + 88))"
  by (simp add: read_record_def getBigInt64_def entry_at_def Let_def add.assoc)

lemma read_messages_fail:
  "n - i = Suc d \<Longrightarrow> length (buffer a) < off + 88 * d + 8 \<Longrightarrow>
     read_messages a n i off acc = Inl RangeError"
proof (induction d arbitrary: i off acc)
  case 0
  then show ?case
    by (simp add: read_messages.simps [of a n i] read_record_eq)
next
  case (Suc d)
  have i: "i < n" and d: "n - (i + 1) = Suc d"
    using Suc.prems(1) by simp_all
  show ?case
  proof (cases "length (buffer a) < off + 8")
    case True
    with i show ?thesis
      by (simp add: read_messages.simps [of a n i] read_record_eq)
  next
    case False
    have "read_messages a n (i + 1) (off + 88) (acc @ [entry_at a off]) = Inl RangeError"
      using Suc.prems(2) by (intro Suc.IH [OF d]) simp
    with i False show ?thesis
      by (simp add: read_messages.simps [of a n i] read_record_eq)
  qed
qed

lemma read_messages_ok:
  "n - i = d \<Longrightarrow> (0 < d \<Longrightarrow> off + 88 * (d - 1) + 8 \<le> length (buffer a)) \<Longrightarrow>
     read_messages a n i off acc =
       Inr (acc @ map (\<lambda>k. entry_at a (off + 88 * k)) [0..<d])"
proof (induction d arbitrary: i off acc)
  case 0
  then show ?case
    by (simp add: read_messages.simps [of a n i])
next
  case (Suc d)
  have i: "i < n" and d: "n - (i + 1) = d"
    using Suc.prems(1) by simp_all
  have here: "\<not> length (buffer a) < off + 8"
    using Suc.prems(2) by simp
  have "read_messages a n (i + 1) (off + 88) (acc @ [entry_at a off]) =
      Inr ((acc @ [entry_at a off]) @ map (\<lambda>k. entry_at a (off + 88 + 88 * k)) [0..<d])"
    using Suc.prems(2) by (intro Suc.IH [OF d]) (cases d; simp)
  moreover have "map (\<lambda>k. entry_at a (off + 88 * k)) [0..<Suc d] =
      entry_at a off # map (\<lambda>k. entry_at a (off + 88 + 88 * k)) [0..<d]"
    by (simp add: upt_conv_Cons map_Suc_upt [symmetric] add.assoc del: upt_Suc)
  ultimately show ?case
    using i here by (simp add: read_messages.simps [of a n i] read_record_eq del: upt_Suc)
qed

lemma parse_wall_eq:
  assumes "4 \<le> length (buffer a)"
  shows "parse_wall a =
     (let n = le_nat (take 4 (buffer a))
      in if 0 < n \<and> length (buffer a) < 88 * (n - 1) + 12 then Inl RangeError
         else Inr (map (\<lambda>k. entry_at a (4 + 88 * k)) [0..<n]))"
proof -
  define n where "n = le_nat (take 4 (buffer a))"
  have cnt: "getUint32 (buffer a) 0 = Inr n"
    using assms by (simp add: getUint32_def Uint8Array_slice_def n_def)
  show ?thesis
  proof (cases "0 < n \<and> length (buffer a) < 88 * (n - 1) + 12")
    case True
    then obtain d where d: "n - 0 = Suc d" by (cases n) auto
    with True have "length (buffer a) < 4 + 88 * d + 8" by simp
    from read_messages_fail [OF d this] True show ?thesis
      by (simp add: parse_wall_def cnt n_def [symmetric])
  next
    case False
    have "read_messages a n 0 4 [] = Inr ([] @ map (\<lambda>k. entry_at a (4 + 88 * k)) [0..<n])"
      using False by (intro read_messages_ok) auto
    with False show ?thesis
      by (simp add: parse_wall_def cnt n_def [symmetric])
  qed
qed

subsection \<open>Small facts about the codecs\<close>

lemma TextEncoder_encode_Nil: "TextEncoder_encode [] = []"
  by (simp add: TextEncoder_encode_def)

lemma getUint32_0: "4 \<le> length buf \<Longrightarrow> getUint32 buf 0 = Inr (le_nat (take 4 buf))"
  by (simp add: getUint32_def Uint8Array_slice_def)

lemma bit_length_0: "bit_length 0 = 0"
  by (simp add: bit_length.simps)

lemma Number_of_BigInt_0: "Number_of_BigInt 0 = 0"
  by (simp add: Number_of_BigInt_def bit_length_0)

lemma TextDecoder_decode_Nil: "TextDecoder_decode [] = []"
  by (simp add: TextDecoder_decode_def strip_bom_def)

subsection \<open>Entries of a parsed wall\<close>

lemma entry_at_window:
  "entry_at (whole buf) off = entry_at (whole (Uint8Array_slice buf off (off + 88))) 0"
  by (simp add: entry_at_def buffer_whole elems_whole Uint8Array_slice_def drop_take min_def
      add.commute)

lemma parse_wall_length:
  "parse_wall a = Inr ms \<Longrightarrow> 4 \<le> length (buffer a)"
  by (auto simp: parse_wall_def getUint32_def split: if_splits sum.splits)

lemma parse_wall_nth:
  assumes "parse_wall a = Inr ms" and "i < length ms"
  shows "ms ! i = entry_at a (4 + 88 * i)"
proof -
  have "4 \<le> length (buffer a)" using assms(1) by (rule parse_wall_length)
  with assms show ?thesis
    by (auto simp: parse_wall_eq Let_def split: if_splits)
qed

lemma name_entry_at:
  "name (entry_at a off) = TextDecoder_decode
     (filter (\<lambda>x. x \<noteq> 0) (take 16 (drop 8 (take 88 (drop off (elems a))))))"
  by (simp add: entry_at_def Uint8Array_slice_def drop_take add.commute)

lemma message_entry_at:
  "message (entry_at a off) = TextDecoder_decode
     (filter (\<lambda>x. x \<noteq> 0) (take 64 (drop 24 (take 88 (drop off (elems a))))))"
  by (simp add: entry_at_def Uint8Array_slice_def drop_take add.commute)

subsection \<open>The stable sort by recency\<close>

lemma mset_insert_by: "mset (insert_by cmp x ys) = add_mset x (mset ys)"
  by (induction ys) auto

lemma mset_Array_sort: "mset (Array_sort cmp xs) = mset xs"
  by (induction xs) (auto simp: Array_sort_def mset_insert_by)

lemma set_insert_by: "set (insert_by cmp x ys) = insert x (set ys)"
  by (induction ys) auto

lemma sorted_insert_by_recency:
  "sorted_wrt (\<lambda>a b. timestamp b \<le> timestamp a) ys \<Longrightarrow>
     sorted_wrt (\<lambda>a b. timestamp b \<le> timestamp a) (insert_by by_recency x ys)"
  by (induction ys) (auto simp: by_recency_def set_insert_by)

lemma sorted_Array_sort_by_recency:
  "sorted_wrt (\<lambda>a b. timestamp b \<le> timestamp a) (Array_sort by_recency xs)"
  by (induction xs) (auto simp: Array_sort_def sorted_insert_by_recency)

lemma filter_insert_by_recency:
  "sorted_wrt (\<lambda>a b. timestamp b \<le> timestamp a) ys \<Longrightarrow>
     filter (\<lambda>m. timestamp m = t) (insert_by by_recency x ys) =
       (if timestamp x = t then x # filter (\<lambda>m. timestamp m = t) ys
        else filter (\<lambda>m. timestamp m = t) ys)"
  by (induction ys) (auto simp: by_recency_def)

lemma filter_Array_sort_by_recency:
  "filter (\<lambda>m. timestamp m = t) (Array_sort by_recency xs) = filter (\<lambda>m. timestamp m = t) xs"
proof (induction xs)
  case Nil
  show ?case by (simp add: Array_sort_def)
next
  case (Cons x xs)
  have "Array_sort by_recency (x # xs) = insert_by by_recency x (Array_sort by_recency xs)"
    by (simp add: Array_sort_def)
  then show ?case
    using Cons.IH by (simp add: filter_insert_by_recency sorted_Array_sort_by_recency)
qed

subsection \<open>Timestamps\<close>

lemma le_nat_bound: "le_nat bs < 256 ^ length bs"
proof (induction bs)
  case Nil
  show ?case by (simp add: le_nat_def)
next
  case (Cons b bs)
  have "unat b < 256" using unsigned_less [of b, where ?'a = nat] by simp
  moreover have "le_nat (b # bs) = unat b + 256 * le_nat bs" by (simp add: le_nat_def)
  moreover have "le_nat bs + 1 \<le> 256 ^ length bs" using Cons.IH by simp
  then have "256 * (le_nat bs + 1) \<le> 256 * 256 ^ length bs" by (rule mult_le_mono2)
  ultimately show ?case by simp
qed

lemma le_nat_sum: "le_nat bs = (\<Sum>k<length bs. unat (bs ! k) * 256 ^ k)"
proof (induction bs)
  case Nil
  show ?case by (simp add: le_nat_def)
next
  case (Cons b bs)
  have "le_nat (b # bs) = unat b + 256 * le_nat bs" by (simp add: le_nat_def)
  also have "\<dots> = unat b + 256 * (\<Sum>k<length bs. unat (bs ! k) * 256 ^ k)"
    by (simp add: Cons.IH)
  also have "\<dots> = unat b + (\<Sum>k<length bs. unat ((b # bs) ! Suc k) * 256 ^ Suc k)"
    by (simp add: sum_distrib_left mult.assoc mult.left_commute)
  also have "\<dots> = (\<Sum>k<Suc (length bs). unat ((b # bs) ! k) * 256 ^ k)"
    by (simp add: sum.lessThan_Suc_shift [of "\<lambda>k. unat ((b # bs) ! k) * 256 ^ k"]
        del: sum.lessThan_Suc)
  finally show ?case by simp
qed

lemma two_complement_64:
  assumes "u < 2 ^ 64"
  shows "(if u < 2 ^ 63 then int u else int u - 2 ^ 64) = signed_take_bit 63 (int u)"
proof -
  have stb: "signed_take_bit 63 (int u) = (int u + 2 ^ 63) mod 2 ^ 64 - 2 ^ 63"
    by (simp add: signed_take_bit_eq_take_bit_shift take_bit_eq_mod)
  have hi: "int u < 2 ^ 64"
    using assms by (metis of_nat_less_iff of_nat_numeral of_nat_power)
  have lo: "u < 2 ^ 63 \<longleftrightarrow> int u < 2 ^ 63"
    by (metis of_nat_less_iff of_nat_numeral of_nat_power)
  show ?thesis
  proof (cases "u < 2 ^ 63")
    case True
    with lo have "(int u + 2 ^ 63) mod 2 ^ 64 = int u + 2 ^ 63"
      by (intro mod_pos_pos_trivial) simp_all
    with True show ?thesis by (simp add: stb)
  next
    case False
    have "(int u + 2 ^ 63) mod 2 ^ 64 = (int u + 2 ^ 63 - 2 ^ 64) mod 2 ^ 64"
      by (simp only: minus_mod_self2)
    also have "\<dots> = int u + 2 ^ 63 - 2 ^ 64"
      using False lo hi by (intro mod_pos_pos_trivial) simp_all
    finally show ?thesis using False by (simp add: stb)
  qed
qed

lemma bit_length_le: "n < 2 ^ k \<Longrightarrow> bit_length n \<le> k"
proof (induction k arbitrary: n)
  case 0
  then show ?case by (simp add: bit_length.simps)
next
  case (Suc k)
  show ?case
  proof (cases "n = 0")
    case True
    then show ?thesis by (simp add: bit_length.simps)
  next
    case False
    have "n div 2 < 2 ^ k" using Suc.prems by simp
    then have "bit_length (n div 2) \<le> k" by (rule Suc.IH)
    with False show ?thesis by (simp add: bit_length.simps [of n])
  qed
qed

lemma bit_length_exact: "2 ^ k \<le> n \<Longrightarrow> n < 2 ^ Suc k \<Longrightarrow> bit_length n = Suc k"
proof (induction k arbitrary: n)
  case 0
  then have "n = 1" by simp
  then show ?case by (simp add: bit_length.simps [of "Suc 0"] bit_length.simps [of 0])
next
  case (Suc k)
  have "2 ^ k \<le> n div 2" "n div 2 < 2 ^ Suc k" using Suc.prems by simp_all
  then have half: "bit_length (n div 2) = Suc k" by (rule Suc.IH)
  have "(0::nat) < 2 ^ Suc k" by simp
  then have "n \<noteq> 0" using Suc.prems(1) by linarith
  with half show ?case by (simp add: bit_length.simps [of n])
qed

lemma Number_of_BigInt_exact: "\<bar>v\<bar> < 2 ^ 53 \<Longrightarrow> Number_of_BigInt v = v"
proof -
  assume "\<bar>v\<bar> < 2 ^ 53"
  then have "nat \<bar>v\<bar> < 2 ^ 53" by (simp add: nat_less_iff)
  then have "bit_length (nat \<bar>v\<bar>) \<le> 53" by (rule bit_length_le)
  then show ?thesis by (simp add: Number_of_BigInt_def Let_def)
qed

lemma timestamp_entry_at:
  assumes "off + 8 \<le> length (buffer a)"
  shows "timestamp (entry_at a off) =
     Number_of_BigInt (signed_take_bit 63 (\<Sum>k<8. int (unat (buffer a ! (off + k))) * 256 ^ k))"
proof -
  define ts where "ts = Uint8Array_slice (buffer a) off (off + 8)"
  have len: "length ts = 8" using assms by (simp add: ts_def Uint8Array_slice_def)
  have nth: "ts ! k = buffer a ! (off + k)" if "k < 8" for k
    using that assms by (simp add: ts_def Uint8Array_slice_def)
  have "le_nat ts < 2 ^ 64" using le_nat_bound [of ts] by (simp add: len)
  then have "(if le_nat ts < 2 ^ 63 then int (le_nat ts) else int (le_nat ts) - 2 ^ 64)
      = signed_take_bit 63 (int (le_nat ts))"
    by (rule two_complement_64)
  moreover have "int (le_nat ts) = (\<Sum>k<8. int (unat (buffer a ! (off + k))) * 256 ^ k)"
    by (simp add: le_nat_sum len nth)
  ultimately show ?thesis
    by (simp add: entry_at_def ts_def [symmetric] Let_def)
qed

subsection \<open>Decoding what the encoder wrote\<close>

lemma add_mod_small: "r < m \<Longrightarrow> (k * m + r) mod m = (r::nat)"
  by simp

lemma cont_mod: "r < 64 \<Longrightarrow> (0x80 + r) mod 64 = (r::nat)" 
  using add_mod_small [of r 64 2] by simp

lemma cont_more:
  assumes "needed \<noteq> 0" and "lo \<le> 0x80 + r" and "0x80 + r \<le> hi" and "r < 64"
    and "seen + 1 \<noteq> needed"
  shows "utf8_decode cp seen needed lo hi ((0x80 + r) # rest)
         = utf8_decode (cp * 64 + r) (seen + 1) needed 0x80 0xBF rest"
  using assms by (simp add: cont_mod)

lemma cont_last:
  assumes "needed \<noteq> 0" and "lo \<le> 0x80 + r" and "0x80 + r \<le> hi" and "r < 64"
    and "seen + 1 = needed"
  shows "utf8_decode cp seen needed lo hi ((0x80 + r) # rest)
         = (cp * 64 + r) # utf8_decode 0 0 0 0x80 0xBF rest"
  using assms by (simp add: cont_mod)

lemma lead_two:
  assumes "2 \<le> q" and "q < 32"
  shows "utf8_decode 0 0 0 0x80 0xBF ((0xC0 + q) # rest) = utf8_decode q 0 1 0x80 0xBF rest"
proof -
  have "(0xC0 + q) mod 32 = q" using add_mod_small [of q 32 6] assms by simp
  then show ?thesis using assms by simp
qed

lemma lead_three:
  assumes "a < 16"
  shows "utf8_decode 0 0 0 0x80 0xBF ((0xE0 + a) # rest)
         = utf8_decode a 0 2 (if a = 0 then 0xA0 else 0x80) (if a = 13 then 0x9F else 0xBF) rest"
proof -
  have "(0xE0 + a) mod 16 = a" using add_mod_small [of a 16 14] assms by simp
  then show ?thesis using assms by simp
qed

lemma lead_four:
  assumes "a \<le> 4"
  shows "utf8_decode 0 0 0 0x80 0xBF ((0xF0 + a) # rest)
         = utf8_decode a 0 3 (if a = 0 then 0x90 else 0x80) (if a = 4 then 0x8F else 0xBF) rest"
proof -
  have "(0xF0 + a) mod 8 = a" using add_mod_small [of a 8 30] assms by simp
  then show ?thesis using assms by simp
qed

lemma decode_two:
  assumes "2 \<le> q" and "q < 32" and "r < 64"
  shows "utf8_decode 0 0 0 0x80 0xBF ((0xC0 + q) # (0x80 + r) # rest)
         = (q * 64 + r) # utf8_decode 0 0 0 0x80 0xBF rest"
proof -
  have "utf8_decode q 0 1 0x80 0xBF ((0x80 + r) # rest)
      = (q * 64 + r) # utf8_decode 0 0 0 0x80 0xBF rest"
    using assms(3) by (intro cont_last) simp_all
  then show ?thesis by (simp only: lead_two [OF assms(1,2)])
qed

lemma decode_three:
  assumes "a < 16" and "b < 64" and "c < 64"
    and "a = 0 \<Longrightarrow> 32 \<le> b" and "a = 13 \<Longrightarrow> b < 32"
  shows "utf8_decode 0 0 0 0x80 0xBF ((0xE0 + a) # (0x80 + b) # (0x80 + c) # rest)
         = ((a * 64 + b) * 64 + c) # utf8_decode 0 0 0 0x80 0xBF rest"
proof -
  have "utf8_decode a 0 2 (if a = 0 then 0xA0 else 0x80) (if a = 13 then 0x9F else 0xBF)
          ((0x80 + b) # (0x80 + c) # rest)
      = utf8_decode (a * 64 + b) (0 + 1) 2 0x80 0xBF ((0x80 + c) # rest)"
    using assms by (intro cont_more) auto
  also have "\<dots> = ((a * 64 + b) * 64 + c) # utf8_decode 0 0 0 0x80 0xBF rest"
    using assms(3) by (intro cont_last) simp_all
  finally show ?thesis by (simp only: lead_three [OF assms(1)])
qed

lemma decode_four:
  assumes "a \<le> 4" and "b < 64" and "c < 64" and "d < 64"
    and "a = 0 \<Longrightarrow> 16 \<le> b" and "a = 4 \<Longrightarrow> b < 16"
  shows "utf8_decode 0 0 0 0x80 0xBF
           ((0xF0 + a) # (0x80 + b) # (0x80 + c) # (0x80 + d) # rest)
         = (((a * 64 + b) * 64 + c) * 64 + d) # utf8_decode 0 0 0 0x80 0xBF rest"
proof -
  have "utf8_decode a 0 3 (if a = 0 then 0x90 else 0x80) (if a = 4 then 0x8F else 0xBF)
          ((0x80 + b) # (0x80 + c) # (0x80 + d) # rest)
      = utf8_decode (a * 64 + b) (0 + 1) 3 0x80 0xBF ((0x80 + c) # (0x80 + d) # rest)"
    using assms by (intro cont_more) auto
  also have "\<dots> = utf8_decode ((a * 64 + b) * 64 + c) (0 + 1 + 1) 3 0x80 0xBF ((0x80 + d) # rest)"
    using assms(3) by (intro cont_more) simp_all
  also have "\<dots> = (((a * 64 + b) * 64 + c) * 64 + d) # utf8_decode 0 0 0 0x80 0xBF rest"
    using assms(4) by (intro cont_last) simp_all
  finally show ?thesis by (simp only: lead_four [OF assms(1)])
qed

lemma unat_byte: "n < 256 \<Longrightarrow> unat (of_nat n :: byte) = n"
  by (simp add: unat_of_nat)

lemma unat_byte_add:
  "numeral k + n < 256 \<Longrightarrow> unat (numeral k + of_nat n :: byte) = numeral k + n"
  using unat_byte [of "numeral k + n"] by simp

lemma div_4096: "(cp::nat) div 4096 = cp div 64 div 64"
  by (simp add: div_mult2_eq [symmetric])

lemma div_262144: "(cp::nat) div 262144 = cp div 64 div 64 div 64"
  by (simp add: div_mult2_eq [symmetric])

lemma decode_encode_cp:
  assumes "cp < 0x110000" and "\<not> is_surrogate cp"
  shows "utf8_decode 0 0 0 0x80 0xBF (map unat (utf8_encode_cp cp) @ rest)
         = cp # utf8_decode 0 0 0 0x80 0xBF rest"
proof -
  consider (one) "cp < 0x80" | (two) "0x80 \<le> cp" "cp < 0x800"
    | (three) "0x800 \<le> cp" "cp < 0x10000" | (four) "0x10000 \<le> cp"
    by linarith
  then show ?thesis
  proof cases
    case one
    then show ?thesis by (simp add: utf8_encode_cp_def unat_byte)
  next
    case two
    define q where "q = cp div 64"
    define r where "r = cp mod 64"
    have q: "2 \<le> q" "q < 32" using two by (simp_all add: q_def) 
    have r: "r < 64" by (simp add: r_def)
    have cp: "q * 64 + r = cp" by (simp add: q_def r_def)
    have "map unat (utf8_encode_cp cp) = [0xC0 + q, 0x80 + r]"
      using two q r by (simp add: utf8_encode_cp_def unat_byte unat_byte_add q_def [symmetric] r_def [symmetric])
    then show ?thesis using decode_two [OF q r, of rest] by (simp only: cp) simp
  next
    case three
    define x where "x = cp div 64"
    define a where "a = x div 64"
    define b where "b = x mod 64"
    define c where "c = cp mod 64"
    have x: "32 \<le> x" "x < 1024" using three by (simp_all add: x_def)
    have a: "a < 16" using x by (simp add: a_def)
    have b: "b < 64" and c: "c < 64" by (simp_all add: b_def c_def)
    have xa: "a * 64 + b = x" by (simp add: a_def b_def)
    have cp: "(a * 64 + b) * 64 + c = cp" unfolding xa by (simp add: x_def c_def)
    have a0: "32 \<le> b" if "a = 0" using that x xa by simp
    have "\<not> (0xD800 \<le> cp \<and> cp \<le> 0xDFFF)" using assms(2) by (simp add: is_surrogate_def)
    then have "x < 864 \<or> 896 \<le> x" by (auto simp: x_def) 
    then have a13: "b < 32" if "a = 13" using that xa b by auto
    have "map unat (utf8_encode_cp cp) = [0xE0 + a, 0x80 + b, 0x80 + c]"
      using three a b c
      by (simp add: utf8_encode_cp_def unat_byte unat_byte_add div_4096 x_def [symmetric] a_def [symmetric]
          b_def [symmetric] c_def [symmetric])
    then show ?thesis using decode_three [OF a b c a0 a13, of rest] by (simp only: cp) simp
  next
    case four
    define x where "x = cp div 64"
    define y where "y = x div 64"
    define a where "a = y div 64"
    define b where "b = y mod 64"
    define c where "c = x mod 64"
    define d where "d = cp mod 64"
    have x: "1024 \<le> x" "x < 17408" using four assms(1) by (simp_all add: x_def)
    have y: "16 \<le> y" "y < 272" using x by (simp_all add: y_def)
    have a: "a \<le> 4" using y by (simp add: a_def)
    have b: "b < 64" and c: "c < 64" and d: "d < 64" by (simp_all add: b_def c_def d_def)
    have ya: "a * 64 + b = y" by (simp add: a_def b_def)
    have xy: "y * 64 + c = x" by (simp add: y_def c_def)
    have cp: "((a * 64 + b) * 64 + c) * 64 + d = cp" unfolding ya xy by (simp add: x_def d_def)
    have a0: "16 \<le> b" if "a = 0" using that y ya by simp
    have a4: "b < 16" if "a = 4" using that y ya by simp
    have "map unat (utf8_encode_cp cp) = [0xF0 + a, 0x80 + b, 0x80 + c, 0x80 + d]"
      using four a b c d
      by (simp add: utf8_encode_cp_def unat_byte unat_byte_add div_4096 div_262144 x_def [symmetric]
          y_def [symmetric] a_def [symmetric] b_def [symmetric] c_def [symmetric]
          d_def [symmetric])
    then show ?thesis using decode_four [OF a b c d a0 a4, of rest] by (simp only: cp) simp
  qed
qed

lemma decode_encode_list:
  assumes "\<forall>cp\<in>set cps. cp < 0x110000 \<and> \<not> is_surrogate cp"
  shows "utf8_decode 0 0 0 0x80 0xBF (map unat (concat (map utf8_encode_cp cps))) = cps"
  using assms
proof (induction cps)
  case Nil
  show ?case by simp
next
  case (Cons cp cps)
  have "utf8_decode 0 0 0 0x80 0xBF
          (map unat (utf8_encode_cp cp) @ map unat (concat (map utf8_encode_cp cps)))
        = cp # utf8_decode 0 0 0 0x80 0xBF (map unat (concat (map utf8_encode_cp cps)))"
    using Cons.prems by (intro decode_encode_cp) simp_all
  then show ?case using Cons by simp
qed

lemma unat_code_unit: "unat (c :: code_unit) < 65536"
  using unsigned_less [of c, where ?'a = nat] by simp

lemma pair_scalar:
  assumes "is_lead c" and "is_trail d"
  shows "0x10000 + (c - 0xD800) * 0x400 + (d - 0xDC00) < (0x110000 :: nat)"
    and "\<not> is_surrogate (0x10000 + (c - 0xD800) * 0x400 + (d - 0xDC00))"
  using assms unfolding is_lead_def is_trail_def is_surrogate_def by arith+

lemma code_points_scalar:
  "cp \<in> set (code_points s) \<Longrightarrow> cp < 0x110000 \<and> \<not> is_surrogate cp"
proof (induction s rule: code_points.induct)
  case 1
  then show ?case by simp
next
  case (2 c)
  then show ?case
    using unat_code_unit [of c] by (auto simp: is_surrogate_def split: if_splits)
next
  case (3 c d cs)
  show ?case
  proof (cases "is_lead (unat c) \<and> is_trail (unat d)")
    case True
    with 3 pair_scalar [of "unat c" "unat d"] show ?thesis by auto
  next
    case False
    with 3 unat_code_unit [of c] show ?thesis
      by (auto simp: is_surrogate_def split: if_splits)
  qed
qed

lemma utf16_units_bmp: "utf16_units (unat (c :: code_unit)) = [c]"
  using unat_code_unit [of c] by (simp add: utf16_units_def)

lemma utf16_units_pair:
  assumes "is_lead (unat (c :: code_unit))" and "is_trail (unat (d :: code_unit))"
  shows "utf16_units (0x10000 + (unat c - 0xD800) * 0x400 + (unat d - 0xDC00)) = [c, d]"
proof -
  define h where "h = unat c - 0xD800"
  define l where "l = unat d - 0xDC00"
  have h: "unat c = 0xD800 + h" using assms(1) unfolding h_def is_lead_def by arith
  have l: "unat d = 0xDC00 + l" "l < 0x400"
    using assms(2) unfolding l_def is_trail_def by arith+
  have "(h * 0x400 + l) div 0x400 = h" "(h * 0x400 + l) mod 0x400 = l"
    using l(2) by simp_all
  moreover have "of_nat (unat c) = c" "of_nat (unat d) = d" by simp_all
  ultimately show ?thesis
    unfolding utf16_units_def h_def [symmetric] l_def [symmetric]
    by (simp add: h [symmetric] l(1) [symmetric] del: of_nat_add of_nat_numeral of_nat_unat)
qed

lemma utf16_code_points:
  "well_formed s \<Longrightarrow> concat (map utf16_units (code_points s)) = s"
proof (induction s rule: code_points.induct)
  case 1
  show ?case by simp
next
  case (2 c)
  then show ?case by (simp add: utf16_units_bmp)
next
  case (3 c d cs)
  show ?case
  proof (cases "is_lead (unat c) \<and> is_trail (unat d)")
    case True
    with 3 show ?thesis by (simp add: utf16_units_pair)
  next
    case False
    with 3 show ?thesis by (auto simp: utf16_units_bmp)
  qed
qed

lemma unat_BOM: "unat (c :: code_unit) = 0xFEFF \<longleftrightarrow> c = 0xFEFF"
proof
  assume u: "unat c = 0xFEFF"
  have "c = of_nat (unat c)" by simp
  also have "\<dots> = 0xFEFF" by (simp only: u) simp
  finally show "c = 0xFEFF" .
next
  assume "c = 0xFEFF"
  then show "unat c = 0xFEFF" by simp
qed

lemma strip_bom_code_points:
  "\<not> starts_with_BOM s \<Longrightarrow> strip_bom (code_points s) = code_points s"
proof (induction s rule: code_points.induct)
  case 1
  show ?case by (simp add: strip_bom_def)
next
  case (2 c)
  have "unat c = 0xFEFF \<longleftrightarrow> c = 0xFEFF"
    by (rule unat_BOM)
  with 2 show ?case by (auto simp: strip_bom_def starts_with_BOM_def)
next
  case (3 c d cs)
  have "unat c = 0xFEFF \<longleftrightarrow> c = 0xFEFF"
    by (rule unat_BOM)
  with 3 show ?case
    by (auto simp: strip_bom_def starts_with_BOM_def is_lead_def is_trail_def)
qed

lemma TextDecoder_TextEncoder:
  assumes "well_formed s" and "\<not> starts_with_BOM s"
  shows "TextDecoder_decode (TextEncoder_encode s) = s"
proof -
  have "utf8_decode 0 0 0 0x80 0xBF (map unat (TextEncoder_encode s)) = code_points s"
    unfolding TextEncoder_encode_def
    by (rule decode_encode_list) (simp add: code_points_scalar)
  then show ?thesis
    using assms by (simp add: TextDecoder_decode_def strip_bom_code_points utf16_code_points)
qed

subsection \<open>What the decoder can emit\<close>

lemma cont_byte_mod: "0x80 \<le> b \<Longrightarrow> b \<le> 0xBF \<Longrightarrow> b mod 64 = b - (0x80 :: nat)"
  using cont_mod [of "b - 0x80"] by simp

lemma lead2_mod: "0xC2 \<le> b \<Longrightarrow> b \<le> 0xDF \<Longrightarrow> b mod 32 = b - (0xC0 :: nat)"
  using add_mod_small [of "b - 0xC0" 32 6] by simp

lemma lead3_mod: "0xE0 \<le> b \<Longrightarrow> b \<le> 0xEF \<Longrightarrow> b mod 16 = b - (0xE0 :: nat)"
  using add_mod_small [of "b - 0xE0" 16 14] by simp

lemma lead4_mod: "0xF0 \<le> b \<Longrightarrow> b \<le> 0xF4 \<Longrightarrow> b mod 8 = b - (0xF0 :: nat)"
  using add_mod_small [of "b - 0xF0" 8 30] by simp

lemma inv_initial: "decoder_inv 0 0 0 lo hi"
  by (simp add: decoder_inv_def)

lemma inv_lead2: "0xC2 \<le> b \<Longrightarrow> b \<le> 0xDF \<Longrightarrow> decoder_inv (b mod 32) 0 1 0x80 0xBF"
  by (auto simp: lead2_mod decoder_inv_def)

lemma inv_lead3:
  "0xE0 \<le> b \<Longrightarrow> b \<le> 0xEF \<Longrightarrow>
     decoder_inv (b mod 16) 0 2 (if b = 0xE0 then 0xA0 else 0x80) (if b = 0xED then 0x9F else 0xBF)"
  by (auto simp: lead3_mod decoder_inv_def)

lemma inv_lead4:
  "0xF0 \<le> b \<Longrightarrow> b \<le> 0xF4 \<Longrightarrow>
     decoder_inv (b mod 8) 0 3 (if b = 0xF0 then 0x90 else 0x80) (if b = 0xF4 then 0x8F else 0xBF)"
  by (auto simp: lead4_mod decoder_inv_def)

lemma inv_cont:
  assumes "decoder_inv cp seen needed lo hi" and "needed \<noteq> 0" and "lo \<le> b" and "b \<le> hi"
    and "seen + 1 \<noteq> needed"
  shows "decoder_inv (cp * 64 + b mod 64) (seen + 1) needed 0x80 0xBF"
proof -
  have b: "0x80 \<le> b" "b \<le> 0xBF" using assms by (auto simp: decoder_inv_def)
  show ?thesis
    using assms unfolding cont_byte_mod [OF b] decoder_inv_def by auto
qed

lemma inv_emit:
  assumes "decoder_inv cp seen needed lo hi" and "needed \<noteq> 0" and "lo \<le> b" and "b \<le> hi"
    and "seen + 1 = needed"
  shows "0 < cp * 64 + b mod 64 \<and> cp * 64 + b mod 64 < 0x110000"
proof -
  have b: "0x80 \<le> b" "b \<le> 0xBF" using assms by (auto simp: decoder_inv_def)
  show ?thesis
    using assms unfolding cont_byte_mod [OF b] decoder_inv_def by auto
qed

lemma utf8_decode_range:
  assumes "decoder_inv cp seen needed lo hi" and "\<forall>b\<in>set bs. 0 < b"
  shows "\<forall>c\<in>set (utf8_decode cp seen needed lo hi bs). 0 < c \<and> c < 0x110000"
  using assms
proof (induction cp seen needed lo hi bs rule: utf8_decode.induct)
  case (1 cp seen needed lo hi)
  show ?case by simp
next
  case (2 cp seen needed lo hi b bs)
  have pos: "0 < b" and rest: "\<forall>b\<in>set bs. 0 < b" using "2.prems"(2) by simp_all
  show ?case
  proof (cases "needed = 0")
    case True
    note n0 = True
    consider (ascii) "b \<le> 0x7F" | (l2) "0xC2 \<le> b" "b \<le> 0xDF" | (l3) "0xE0 \<le> b" "b \<le> 0xEF"
      | (l4) "0xF0 \<le> b" "b \<le> 0xF4" | (bad1) "0x80 \<le> b" "b \<le> 0xC1" | (bad2) "0xF5 \<le> b"
      by linarith
    then show ?thesis
    proof cases
      case ascii
      with n0 pos "2.IH"(1) [OF n0 ascii inv_initial rest] show ?thesis by simp
    next
      case l2
      then have na: "\<not> b \<le> 0x7F" by simp
      from "2.IH"(2) [OF n0 na _ inv_lead2 [OF l2] rest] l2 n0 na show ?thesis by simp
    next
      case l3
      then have na: "\<not> b \<le> 0x7F" and n2: "\<not> (0xC2 \<le> b \<and> b \<le> 0xDF)" by simp_all
      from "2.IH"(3) [OF n0 na n2 _ inv_lead3 [OF l3] rest] l3 n0 na n2 show ?thesis by simp
    next
      case l4
      then have na: "\<not> b \<le> 0x7F" and n2: "\<not> (0xC2 \<le> b \<and> b \<le> 0xDF)"
        and n3: "\<not> (0xE0 \<le> b \<and> b \<le> 0xEF)" by simp_all
      from "2.IH"(4) [OF n0 na n2 n3 _ inv_lead4 [OF l4] rest] l4 n0 na n2 n3 show ?thesis by simp
    next
      case bad1
      then have na: "\<not> b \<le> 0x7F" and n2: "\<not> (0xC2 \<le> b \<and> b \<le> 0xDF)"
        and n3: "\<not> (0xE0 \<le> b \<and> b \<le> 0xEF)" and n4: "\<not> (0xF0 \<le> b \<and> b \<le> 0xF4)"
        by simp_all
      from "2.IH"(5) [OF n0 na n2 n3 n4 inv_initial rest] bad1 n0 show ?thesis by simp
    next
      case bad2
      then have na: "\<not> b \<le> 0x7F" and n2: "\<not> (0xC2 \<le> b \<and> b \<le> 0xDF)"
        and n3: "\<not> (0xE0 \<le> b \<and> b \<le> 0xEF)" and n4: "\<not> (0xF0 \<le> b \<and> b \<le> 0xF4)"
        by simp_all
      from "2.IH"(5) [OF n0 na n2 n3 n4 inv_initial rest] bad2 n0 show ?thesis by simp
    qed
  next
    case False
    note n1 = False
    show ?thesis
    proof (cases "b < lo \<or> hi < b")
      case True
      from "2.IH"(6) [OF n1 True inv_initial "2.prems"(2)] n1 True show ?thesis by simp
    next
      case False
      then have inb: "lo \<le> b" "b \<le> hi" by simp_all
      show ?thesis
      proof (cases "seen + 1 \<noteq> needed")
        case True
        have "decoder_inv (cp * 64 + b mod 64) (seen + 1) needed 0x80 0xBF"
          using "2.prems"(1) n1 inb True by (rule inv_cont)
        from "2.IH"(7) [OF n1 False True this rest] n1 False True show ?thesis by simp
      next
        case False
        then have last: "seen + 1 = needed" by simp
        have "0 < cp * 64 + b mod 64 \<and> cp * 64 + b mod 64 < 0x110000"
          using "2.prems"(1) n1 inb last by (rule inv_emit)
        with "2.IH"(8) [OF n1 \<open>\<not> (b < lo \<or> hi < b)\<close> _ inv_initial rest] n1 inb last
        show ?thesis by simp
      qed
    qed
  qed
qed

subsection \<open>The fields of a record in a buffer\<close>

lemma entry_at_fields:
  assumes "length pre = off" and "length ts = 8" and "length f1 = 16" and "length f2 = 64"
  shows "entry_at (whole (pre @ ts @ f1 @ f2 @ post)) off =
     \<lparr>timestamp = Number_of_BigInt
        (if le_nat ts < 2 ^ 63 then int (le_nat ts) else int (le_nat ts) - 2 ^ 64),
      name = TextDecoder_decode (filter (\<lambda>x. x \<noteq> 0) f1),
      message = TextDecoder_decode (filter (\<lambda>x. x \<noteq> 0) f2)\<rparr>"
  using assms
  by (simp add: entry_at_def buffer_whole elems_whole Uint8Array_slice_def Let_def)

lemma entry_at_text_fields:
  assumes "length pre = off" and "length ts = 8" and "length f1 = 16" and "length f2 = 64"
  shows "name (entry_at (view p (pre @ ts @ f1 @ f2 @ post) q) off)
           = TextDecoder_decode (filter (\<lambda>x. x \<noteq> 0) f1)"
    and "message (entry_at (view p (pre @ ts @ f1 @ f2 @ post) q) off)
           = TextDecoder_decode (filter (\<lambda>x. x \<noteq> 0) f2)"
  using assms by (simp_all add: entry_at_def elems_view Uint8Array_slice_def)

lemma filter_zero_padded:
  assumes "length e \<le> w"
  shows "filter (\<lambda>x. x \<noteq> 0) (zero_padded w e) = filter (\<lambda>x. x \<noteq> 0) e"
  using assms by (simp add: zero_padded_def)

lemma entry_at_payload:
  assumes "length ts = 8" and "length e1 \<le> 16" and "length e2 \<le> 64"
  shows "entry_at (whole (pre @ ts @ (zero_padded 16 e1 @ zero_padded 64 e2) @ post)) (length pre) =
     \<lparr>timestamp = Number_of_BigInt
        (if le_nat ts < 2 ^ 63 then int (le_nat ts) else int (le_nat ts) - 2 ^ 64),
      name = TextDecoder_decode (filter (\<lambda>x. x \<noteq> 0) e1),
      message = TextDecoder_decode (filter (\<lambda>x. x \<noteq> 0) e2)\<rparr>"
proof -
  have "entry_at (whole (pre @ ts @ zero_padded 16 e1 @ zero_padded 64 e2 @ post)) (length pre) =
     \<lparr>timestamp = Number_of_BigInt
        (if le_nat ts < 2 ^ 63 then int (le_nat ts) else int (le_nat ts) - 2 ^ 64),
      name = TextDecoder_decode (filter (\<lambda>x. x \<noteq> 0) (zero_padded 16 e1)),
      message = TextDecoder_decode (filter (\<lambda>x. x \<noteq> 0) (zero_padded 64 e2))\<rparr>"
    using assms(1) by (intro entry_at_fields) (simp_all add: length_zero_padded)
  then show ?thesis
    using assms(2,3) by (simp add: filter_zero_padded)
qed

subsection \<open>Walls made of whole records\<close>

lemma take_concat_88:
  assumes "\<forall>r\<in>set recs. length r = 88" and "k < length recs"
  shows "take 88 (drop (88 * k) (concat recs @ post)) = recs ! k"
  using assms
proof (induction recs arbitrary: k)
  case Nil
  then show ?case by simp
next
  case (Cons r recs)
  show ?case
  proof (cases k)
    case 0
    with Cons.prems show ?thesis by simp
  next
    case (Suc j)
    with Cons.prems have "take 88 (drop (88 * j) (concat recs @ post)) = recs ! j"
      by (intro Cons.IH) simp_all
    with Suc Cons.prems show ?thesis by simp
  qed
qed

lemma length_concat_88:
  "\<forall>r\<in>set recs. length r = 88 \<Longrightarrow> length (concat recs) = 88 * length recs"
  by (induction recs) simp_all

lemma parse_wall_records:
  assumes "length cnt = 4" and "le_nat cnt = length recs" and "\<forall>r\<in>set recs. length r = 88"
  shows "parse_wall (whole (cnt @ concat recs @ post))
         = Inr (map (\<lambda>r. entry_at (whole r) 0) recs)"
proof -
  let ?buf = "cnt @ concat recs @ post"
  let ?n = "length recs"
  have len: "length ?buf = 4 + 88 * ?n + length post"
    using assms by (simp add: length_concat_88)
  have n: "le_nat (take 4 (buffer (whole ?buf))) = ?n" using assms by (simp add: buffer_whole)
  have ok: "\<not> (0 < ?n \<and> length (buffer (whole ?buf)) < 88 * (?n - 1) + 12)"
    unfolding buffer_whole len by (cases recs) simp_all
  have "4 \<le> length (buffer (whole ?buf))" using len by (simp add: buffer_whole)
  then have p: "parse_wall (whole ?buf)
      = Inr (map (\<lambda>k. entry_at (whole ?buf) (4 + 88 * k)) [0..<?n])"
    using ok by (simp only: parse_wall_eq n Let_def if_False)
  have "map (\<lambda>k. entry_at (whole ?buf) (4 + 88 * k)) [0..<?n]
      = map (\<lambda>r. entry_at (whole r) 0) recs"
  proof (rule nth_equalityI)
    show "length (map (\<lambda>k. entry_at (whole ?buf) (4 + 88 * k)) [0..<?n])
        = length (map (\<lambda>r. entry_at (whole r) 0) recs)"
      by simp
  next
    fix k assume "k < length (map (\<lambda>k. entry_at (whole ?buf) (4 + 88 * k)) [0..<?n])"
    then have k: "k < ?n" by simp
    have "Uint8Array_slice ?buf (4 + 88 * k) (4 + 88 * k + 88)
        = take 88 (drop (88 * k) (concat recs @ post))"
      using assms(1) by (simp add: Uint8Array_slice_def)
    also have "\<dots> = recs ! k" using assms(3) k by (rule take_concat_88)
    finally have "entry_at (whole ?buf) (4 + 88 * k) = entry_at (whole (recs ! k)) 0"
      by (simp add: entry_at_window [of ?buf "4 + 88 * k"])
    with k show "map (\<lambda>k. entry_at (whole ?buf) (4 + 88 * k)) [0..<?n] ! k
        = map (\<lambda>r. entry_at (whole r) 0) recs ! k"
      by simp
  qed
  with p show ?thesis by simp
qed

subsection \<open>Decoded text has no NUL\<close>

lemma of_nat_code_unit_nonzero:
  assumes "0 < n" and "n < 65536"
  shows "(of_nat n :: code_unit) \<noteq> 0"
proof
  assume "(of_nat n :: code_unit) = 0"
  then have "unat (of_nat n :: code_unit) = 0" by simp
  then have "n mod 65536 = 0" by (simp add: unat_of_nat)
  with assms show False by simp
qed

lemma utf16_units_nonzero:
  assumes "0 < c" and "c < 0x110000"
  shows "0 \<notin> set (utf16_units c)"
proof (cases "c < 0x10000")
  case True
  with assms(1) show ?thesis
    using of_nat_code_unit_nonzero [of c] by (simp add: utf16_units_def del: of_nat_eq_0_iff)
next
  case False
  define x where "x = c - 0x10000"
  have "x div 0x400 < 0x400" using assms(2) False by (simp add: x_def)
  then have a: "(of_nat (0xD800 + x div 0x400) :: code_unit) \<noteq> 0"
    by (intro of_nat_code_unit_nonzero) simp_all
  have "x mod 0x400 < 0x400" by simp
  then have b: "(of_nat (0xDC00 + x mod 0x400) :: code_unit) \<noteq> 0"
    by (intro of_nat_code_unit_nonzero) simp_all
  show ?thesis
    using False a b unfolding utf16_units_def x_def [symmetric]
    by (simp del: of_nat_add of_nat_numeral of_nat_eq_0_iff)
qed

lemma set_strip_bom: "set (strip_bom cps) \<subseteq> set cps"
  by (auto simp: strip_bom_def split: list.splits if_splits)

lemma TextDecoder_no_NUL:
  assumes "0 \<notin> set bs"
  shows "0 \<notin> set (TextDecoder_decode bs)"
proof -
  have "\<forall>b\<in>set (map unat bs). 0 < b"
  proof
    fix b assume "b \<in> set (map unat bs)"
    then obtain w where w: "w \<in> set bs" "b = unat w" by auto
    with assms have "w \<noteq> 0" by auto
    then show "0 < b" using w(2) by (simp add: unat_gt_0)
  qed
  with inv_initial have "\<forall>c\<in>set (utf8_decode 0 0 0 0x80 0xBF (map unat bs)). 0 < c \<and> c < 0x110000"
    by (rule utf8_decode_range)
  with set_strip_bom have "\<forall>c\<in>set (strip_bom (utf8_decode 0 0 0 0x80 0xBF (map unat bs))).
      0 \<notin> set (utf16_units c)"
    by (meson subsetD utf16_units_nonzero)
  then show ?thesis by (auto simp: TextDecoder_decode_def)
qed

lemma entry_at_no_NUL:
  "0 \<notin> set (name (entry_at a off)) \<and> 0 \<notin> set (message (entry_at a off))"
  by (simp add: entry_at_def TextDecoder_no_NUL)

subsection \<open>Sample texts\<close>

lemma encode_Ada: "TextEncoder_encode [0x41, 0x64, 0x61] = [0x41, 0x64, 0x61]"
  by (simp add: TextEncoder_encode_def utf8_encode_cp_def is_lead_def is_trail_def
      is_surrogate_def)

lemma encode_Hi: "TextEncoder_encode [0x48, 0x69] = [0x48, 0x69]"
  by (simp add: TextEncoder_encode_def utf8_encode_cp_def is_lead_def is_trail_def
      is_surrogate_def)

lemma encode_BOM_Ada:
  "TextEncoder_encode [0xFEFF, 0x41, 0x64, 0x61] = [0xEF, 0xBB, 0xBF, 0x41, 0x64, 0x61]"
  by (simp add: TextEncoder_encode_def utf8_encode_cp_def is_lead_def is_trail_def
      is_surrogate_def)

lemma decode_BOM_Ada:
  "TextDecoder_decode [0xEF, 0xBB, 0xBF, 0x41, 0x64, 0x61] = [0x41, 0x64, 0x61]"
  by (simp add: TextDecoder_decode_def strip_bom_def utf16_units_def)

subsection \<open>The sample wall\<close>

lemma length_sample_record: "length (sample_record t0 t1 c d) = 88"
  by (simp add: sample_record_def)

lemma entry_at_sample_record:
  "entry_at (whole (sample_record t0 t1 c d)) 0 =
     \<lparr>timestamp = Number_of_BigInt (int (unat t0 + 256 * unat t1)),
      name = TextDecoder_decode (filter (\<lambda>x. x \<noteq> 0) [c, d]), message = []\<rparr>"
proof -
  have "unat t0 < 256" "unat t1 < 256"
    using unsigned_less [of t0, where ?'a = nat] unsigned_less [of t1, where ?'a = nat]
    by simp_all
  then have small: "unat t0 + 256 * unat t1 < 2 ^ 63" by simp
  have "entry_at (whole ([] @ [t0, t1, 0, 0, 0, 0, 0, 0] @ ([c, 0, d] @ replicate 13 0)
         @ replicate 64 0 @ [])) 0 =
     \<lparr>timestamp = Number_of_BigInt
        (if le_nat [t0, t1, 0, 0, 0, 0, 0, 0] < 2 ^ 63 then int (le_nat [t0, t1, 0, 0, 0, 0, 0, 0])
         else int (le_nat [t0, t1, 0, 0, 0, 0, 0, 0]) - 2 ^ 64),
      name = TextDecoder_decode (filter (\<lambda>x. x \<noteq> 0) ([c, 0, d] @ replicate 13 0)),
      message = TextDecoder_decode (filter (\<lambda>x. x \<noteq> 0) (replicate 64 0))\<rparr>"
    by (rule entry_at_fields) simp_all
  moreover have "le_nat [t0, t1, 0, 0, 0, 0, 0, 0] = unat t0 + 256 * unat t1"
    by (simp add: le_nat_def)
  ultimately show ?thesis
    using small by (simp add: sample_record_def TextDecoder_decode_Nil)
qed

lemma decode_sample_names:
  "TextDecoder_decode [0x61, 0x41] = [0x61, 0x41]"
  "TextDecoder_decode [0x62, 0x42] = [0x62, 0x42]"
  "TextDecoder_decode [0x63, 0x43] = [0x63, 0x43]"
  "TextDecoder_decode [0x64, 0x44] = [0x64, 0x44]"
  by (simp_all add: TextDecoder_decode_def strip_bom_def utf16_units_def)

lemma parse_sample_wall: "parse_wall (whole sample_wall) = Inr sample_entries"
proof -
  have "parse_wall (whole ([4, 0, 0, 0]
        @ concat [sample_record 100 0 0x61 0x41, sample_record 44 1 0x62 0x42,
            sample_record 200 0 0x63 0x43, sample_record 44 1 0x64 0x44] @ []))
      = Inr (map (\<lambda>r. entry_at (whole r) 0)
          [sample_record 100 0 0x61 0x41, sample_record 44 1 0x62 0x42,
           sample_record 200 0 0x63 0x43, sample_record 44 1 0x64 0x44])"
    by (rule parse_wall_records) (simp_all add: le_nat_def length_sample_record)
  then have "parse_wall (whole sample_wall) = Inr (map (\<lambda>r. entry_at (whole r) 0)
      [sample_record 100 0 0x61 0x41, sample_record 44 1 0x62 0x42,
       sample_record 200 0 0x63 0x43, sample_record 44 1 0x64 0x44])"
    by (simp add: sample_wall_def)
  moreover have "Number_of_BigInt 100 = 100" "Number_of_BigInt 300 = 300"
    "Number_of_BigInt 200 = 200"
    by (simp_all add: Number_of_BigInt_exact)
  ultimately show ?thesis
    by (simp add: entry_at_sample_record sample_entries_def decode_sample_names)
qed

lemma length_sample_wall: "length sample_wall = 356"
  by (simp add: sample_wall_def length_sample_record)

subsection \<open>Slices\<close>

lemma slice_from_2: "Uint8Array_slice xs 2 (length xs) = drop 2 xs"
  by (simp add: Uint8Array_slice_def)

section \<open>The write path\<close>

text \<open>
  Claim C2. For every pair of strings, \<open>serializeGraffitiData\<close> returns (it never throws)
  exactly 80 bytes. The first 16 are the first \<open>min 16 len\<close> bytes of the UTF-8 encoding
  of the name followed by zeros, the other 64 are built from the message in the same way
  with width 64. The empty string gives an all-zero field. The result is a function of
  the two strings alone.
\<close>

theorem serializeGraffitiData_layout:
  "\<exists>r. serializeGraffitiData nm msg = Inr r \<and> length r = 80
     \<and> take 16 r = take 16 (TextEncoder_encode nm)
          @ replicate (16 - min 16 (length (TextEncoder_encode nm))) 0
     \<and> drop 16 r = take 64 (TextEncoder_encode msg)
          @ replicate (64 - min 64 (length (TextEncoder_encode msg))) 0
     \<and> (nm = [] \<longrightarrow> take 16 r = replicate 16 0)
     \<and> (msg = [] \<longrightarrow> drop 16 r = replicate 64 0)"
  by (simp add: serializeGraffitiData_eq zero_padded_def TextEncoder_encode_Nil min_def)

theorem serializeGraffitiData_layout_witness:
  "serializeGraffitiData [] [] = Inr (replicate 80 0)"
proof -
  obtain r where r: "serializeGraffitiData [] [] = Inr r" "length r = 80"
    "take 16 r = replicate 16 0" "drop 16 r = replicate 64 0"
    using serializeGraffitiData_layout [of "[]" "[]"] by auto
  have "r = take 16 r @ drop 16 r" by simp
  also have "\<dots> = replicate 80 0"
    unfolding r(3,4) by (simp add: replicate_add [symmetric])
  finally show ?thesis using r(1) by simp
qed

section \<open>The read path\<close>

text \<open>
  Claim C4. When the account has no data, or fewer than four bytes of it, the reader
  presents the empty wall and clears the error: this state is not reported as a failure.
\<close>

theorem fetchWallData_short_buffer:
  "(case data acct of None \<Rightarrow> True | Some bytes \<Rightarrow> length_u8 bytes < 4) \<Longrightarrow>
     fetchWallData (Inr (Some acct)) st = st\<lparr>wallData := [], error := None\<rparr>"
  by (simp add: fetchWallData_def split: option.splits)

theorem fetchWallData_short_buffer_witness:
  "fetchWallData (Inr (Some \<lparr>data = None\<rparr>)) \<lparr>wallData = [], error = Some Account_not_found\<rparr>
     = \<lparr>wallData = [], error = None\<rparr>
   \<and> fetchWallData (Inr (Some \<lparr>data = Some (whole [])\<rparr>))
       \<lparr>wallData = [], error = Some Account_not_found\<rparr>
     = \<lparr>wallData = [], error = None\<rparr>
   \<and> fetchWallData (Inr (Some \<lparr>data = Some (whole [7, 7, 7])\<rparr>))
       \<lparr>wallData = [\<lparr>timestamp = 1, name = [], message = []\<rparr>], error = None\<rparr>
     = \<lparr>wallData = [], error = None\<rparr>"
  using fetchWallData_short_buffer [of "\<lparr>data = None\<rparr>" "\<lparr>wallData = [], error = Some Account_not_found\<rparr>"]
    fetchWallData_short_buffer [of "\<lparr>data = Some (whole [])\<rparr>"
      "\<lparr>wallData = [], error = Some Account_not_found\<rparr>"]
    fetchWallData_short_buffer [of "\<lparr>data = Some (whole [7, 7, 7])\<rparr>"
      "\<lparr>wallData = [\<lparr>timestamp = 1, name = [], message = []\<rparr>], error = None\<rparr>"]
  by (simp add: length_u8_whole)

text \<open>
  Claim C5, as the code has it. Let the account array cover its whole underlying buffer,
  have at least four bytes, and declare a record whose eight timestamp bytes, at offset
  \<open>4 + 88 * i\<close>, are not all in it. Then the read fails with the \<open>RangeError\<close> of the
  timestamp read, and the reader reports a fetch failure instead of the records that fit.
  A four-byte buffer that declares one record fails.
\<close>

theorem parse_wall_truncated:
  assumes "byteOffset a = 0" and "length (buffer a) = length_u8 a"
    and "4 \<le> length_u8 a" and "getUint32 (buffer a) 0 = Inr n"
    and "i < n" and "length_u8 a < 4 + 88 * i + 8"
  shows "parse_wall a = Inl RangeError
     \<and> fetchWallData (Inr (Some \<lparr>data = Some a\<rparr>)) st
         = st\<lparr>error := Some (Failed_to_fetch_wall_data RangeError)\<rparr>"
proof -
  have len: "4 \<le> length (buffer a)" using assms(2,3) by simp
  have n: "le_nat (take 4 (buffer a)) = n"
    using len assms(4) by (simp add: getUint32_0)
  have "88 * i \<le> 88 * (n - 1)" using assms(5) by simp
  with assms(2,5,6) have "0 < n \<and> length (buffer a) < 88 * (n - 1) + 12" by simp
  then show ?thesis
    using len assms(3) by (simp add: parse_wall_eq n fetchWallData_def)
qed

theorem parse_wall_truncated_witness:
  "parse_wall (whole [1, 0, 0, 0]) = Inl RangeError
   \<and> fetchWallData (Inr (Some \<lparr>data = Some (whole [1, 0, 0, 0])\<rparr>))
         \<lparr>wallData = [], error = None\<rparr>
       = \<lparr>wallData = [], error = Some (Failed_to_fetch_wall_data RangeError)\<rparr>"
proof -
  have o: "byteOffset (whole [1, 0, 0, 0]) = 0" by (simp add: whole_def)
  have l: "length (buffer (whole [1, 0, 0, 0])) = length_u8 (whole [1, 0, 0, 0])"
    by (simp add: whole_def)
  have a: "4 \<le> length_u8 (whole [1, 0, 0, 0])" by (simp add: whole_def)
  have b: "getUint32 (buffer (whole [1, 0, 0, 0])) 0 = Inr 1"
    by (simp add: whole_def getUint32_def Uint8Array_slice_def le_nat_def)
  have c: "(0::nat) < 1" by simp
  have d: "length_u8 (whole [1, 0, 0, 0]) < 4 + 88 * 0 + 8" by (simp add: whole_def)
  show ?thesis
    using parse_wall_truncated [OF o l a b c d, of "\<lparr>wallData = [], error = None\<rparr>"] by simp
qed

text \<open>
  Claim C5 as stated does not hold: a buffer that declares one record and holds only the
  eight bytes of its timestamp is read without error, as one entry with empty texts. The
  array covers its buffer.
\<close>

theorem truncated_record_accepted:
  "getUint32 (buffer (whole [1, 0, 0, 0, 0, 0, 0, 0, 0, 0, 0, 0])) 0 = Inr 1
   \<and> length_u8 (whole [1, 0, 0, 0, 0, 0, 0, 0, 0, 0, 0, 0]) - 4 < 88 * 1
   \<and> parse_wall (whole [1, 0, 0, 0, 0, 0, 0, 0, 0, 0, 0, 0])
       = Inr [\<lparr>timestamp = 0, name = [], message = []\<rparr>]
   \<and> fetchWallData (Inr (Some \<lparr>data = Some (whole [1, 0, 0, 0, 0, 0, 0, 0, 0, 0, 0, 0])\<rparr>))
         \<lparr>wallData = [], error = None\<rparr>
       = \<lparr>wallData = [\<lparr>timestamp = 0, name = [], message = []\<rparr>], error = None\<rparr>"
proof -
  have c: "getUint32 (buffer (whole [1, 0, 0, 0, 0, 0, 0, 0, 0, 0, 0, 0])) 0 = Inr 1"
    by (simp add: buffer_whole getUint32_def Uint8Array_slice_def le_nat_def)
  have e: "entry_at (whole [1, 0, 0, 0, 0, 0, 0, 0, 0, 0, 0, 0]) 4
      = \<lparr>timestamp = 0, name = [], message = []\<rparr>"
    by (simp add: entry_at_def buffer_whole elems_whole Uint8Array_slice_def le_nat_def
        Number_of_BigInt_0 TextDecoder_decode_Nil)
  have p: "parse_wall (whole [1, 0, 0, 0, 0, 0, 0, 0, 0, 0, 0, 0])
       = Inr [\<lparr>timestamp = 0, name = [], message = []\<rparr>]"
    by (simp add: parse_wall_eq buffer_whole le_nat_def e)
  show ?thesis
    by (simp add: c p fetchWallData_def Array_sort_def length_u8_whole)
qed

text \<open>
  Claim C9, as the code has it. When the account read throws, or the buffer cannot be
  parsed, the reader returns normally and sets the error to the fetch failure; the
  entries presented before the read are left as they were.
\<close>

theorem fetchWallData_failure:
  assumes "response = Inl e
     \<or> (\<exists>bytes. response = Inr (Some \<lparr>data = Some bytes\<rparr>) \<and> 4 \<le> length_u8 bytes
          \<and> parse_wall bytes = Inl e)"
  shows "fetchWallData response st = st\<lparr>error := Some (Failed_to_fetch_wall_data e)\<rparr>
     \<and> wallData (fetchWallData response st) = wallData st"
  using assms by (auto simp: fetchWallData_def)

theorem fetchWallData_failure_witness:
  "fetchWallData (Inr (Some \<lparr>data = Some (whole [1, 0, 0, 0])\<rparr>))
       \<lparr>wallData = [], error = None\<rparr>
     = \<lparr>wallData = [], error = Some (Failed_to_fetch_wall_data RangeError)\<rparr>
   \<and> fetchWallData (Inl (External ''timeout'')) \<lparr>wallData = [], error = None\<rparr>
     = \<lparr>wallData = [], error = Some (Failed_to_fetch_wall_data (External ''timeout''))\<rparr>"
proof -
  have p: "4 \<le> length_u8 (whole [1, 0, 0, 0]) \<and> parse_wall (whole [1, 0, 0, 0]) = Inl RangeError"
    by (simp add: parse_wall_eq buffer_whole length_u8_whole le_nat_def)
  have a: "Inr (Some \<lparr>data = Some (whole [1, 0, 0, 0])\<rparr>) = Inl RangeError
     \<or> (\<exists>bytes. Inr (Some \<lparr>data = Some (whole [1, 0, 0, 0])\<rparr>) = Inr (Some \<lparr>data = Some bytes\<rparr>)
          \<and> 4 \<le> length_u8 bytes \<and> parse_wall bytes = Inl RangeError)"
    using p by simp
  have b: "Inl (External ''timeout'') = Inl (External ''timeout'')
     \<or> (\<exists>bytes. Inl (External ''timeout'') = Inr (Some \<lparr>data = Some bytes\<rparr>)
          \<and> 4 \<le> length_u8 bytes \<and> parse_wall bytes = Inl (External ''timeout''))"
    by simp
  show ?thesis
    using fetchWallData_failure [OF a, of "\<lparr>wallData = [], error = None\<rparr>"]
      fetchWallData_failure [OF b, of "\<lparr>wallData = [], error = None\<rparr>"]
    by simp
qed

text \<open>
  Claim C9 as stated does not hold: after a failed read the wall shown is not empty when
  it was not empty before; the entries of the last successful read stay.
\<close>

theorem stale_entries_after_failure:
  "parse_wall (whole [1, 0, 0, 0]) = Inl RangeError
   \<and> wallData (fetchWallData (Inr (Some \<lparr>data = Some (whole [1, 0, 0, 0])\<rparr>))
        \<lparr>wallData = [\<lparr>timestamp = 100, name = [0x41], message = [0x42]\<rparr>], error = None\<rparr>)
       = [\<lparr>timestamp = 100, name = [0x41], message = [0x42]\<rparr>]
   \<and> wallData (fetchWallData (Inr (Some \<lparr>data = Some (whole [1, 0, 0, 0])\<rparr>))
        \<lparr>wallData = [\<lparr>timestamp = 100, name = [0x41], message = [0x42]\<rparr>], error = None\<rparr>)
       \<noteq> []"
proof -
  have p: "parse_wall (whole [1, 0, 0, 0]) = Inl RangeError"
    by (simp add: parse_wall_eq buffer_whole le_nat_def)
  show ?thesis
    by (simp add: p fetchWallData_def length_u8_whole)
qed

section \<open>Round trip\<close>

text \<open>
  Claim C1, as the code has it. Let the name and the message be well-formed strings (no
  unpaired surrogate) that do not start with U+FEFF, whose UTF-8 encodings have at most 16
  and 64 bytes and contain no zero byte. Then a record made of any eight timestamp bytes
  followed by the payload of \<open>serializeGraffitiData\<close>, read at its place in any account
  array, on any underlying buffer, gives back exactly the name and the message.
\<close>

theorem text_round_trip:
  assumes "well_formed nm" and "well_formed msg"
    and "\<not> starts_with_BOM nm" and "\<not> starts_with_BOM msg"
    and "length (TextEncoder_encode nm) \<le> 16" and "length (TextEncoder_encode msg) \<le> 64"
    and "filter (\<lambda>x. x \<noteq> 0) (TextEncoder_encode nm) = TextEncoder_encode nm"
    and "filter (\<lambda>x. x \<noteq> 0) (TextEncoder_encode msg) = TextEncoder_encode msg"
    and "serializeGraffitiData nm msg = Inr payload" and "length ts = 8"
  shows "\<exists>t. read_record (view before (pre @ ts @ payload @ post) after) (length pre)
            = Inr (\<lparr>timestamp = t, name = nm, message = msg\<rparr>, length pre + 88)"
proof -
  let ?a = "view before (pre @ ts @ payload @ post) after"
  have payload: "payload = zero_padded 16 (TextEncoder_encode nm)
      @ zero_padded 64 (TextEncoder_encode msg)"
    using assms(9) by (simp add: serializeGraffitiData_eq)
  have "length payload = 80" by (simp add: payload length_zero_padded)
  then have fits: "\<not> length (buffer ?a) < length pre + 8"
    using assms(10) by (simp add: buffer_view)
  have "name (entry_at (view before (pre @ ts @ zero_padded 16 (TextEncoder_encode nm)
          @ zero_padded 64 (TextEncoder_encode msg) @ post) after) (length pre))
      = TextDecoder_decode (filter (\<lambda>x. x \<noteq> 0) (zero_padded 16 (TextEncoder_encode nm)))"
    using assms(10) by (intro entry_at_text_fields) (simp_all add: length_zero_padded)
  then have nm: "name (entry_at ?a (length pre)) = nm"
    using assms(1,3,5) by (simp add: payload filter_zero_padded assms(7) TextDecoder_TextEncoder)
  have "message (entry_at (view before (pre @ ts @ zero_padded 16 (TextEncoder_encode nm)
          @ zero_padded 64 (TextEncoder_encode msg) @ post) after) (length pre))
      = TextDecoder_decode (filter (\<lambda>x. x \<noteq> 0) (zero_padded 64 (TextEncoder_encode msg)))"
    using assms(10) by (intro entry_at_text_fields) (simp_all add: length_zero_padded)
  then have msg: "message (entry_at ?a (length pre)) = msg"
    using assms(2,4,6) by (simp add: payload filter_zero_padded assms(8) TextDecoder_TextEncoder)
  have "entry_at ?a (length pre)
      = \<lparr>timestamp = timestamp (entry_at ?a (length pre)), name = nm, message = msg\<rparr>"
    using nm msg by (cases "entry_at ?a (length pre)") simp
  then show ?thesis
    using fits by (auto simp: read_record_eq)
qed

theorem text_round_trip_witness:
  "\<exists>t. read_record (view [9, 9] ([1, 0, 0, 0] @ [0, 0, 0, 0, 0, 0, 0, 0]
          @ (zero_padded 16 [0x41, 0x64, 0x61] @ zero_padded 64 [0x48, 0x69]) @ []) [7])
          (length [1, 0, 0, 0 :: byte])
        = Inr (\<lparr>timestamp = t, name = [0x41, 0x64, 0x61], message = [0x48, 0x69]\<rparr>,
               length [1, 0, 0, 0 :: byte] + 88)"
proof -
  have wf: "well_formed [0x41, 0x64, 0x61]" "well_formed [0x48, 0x69]"
    by (simp_all add: is_lead_def is_trail_def is_surrogate_def)
  have nb: "\<not> starts_with_BOM [0x41, 0x64, 0x61]" "\<not> starts_with_BOM [0x48, 0x69]"
    by (simp_all add: starts_with_BOM_def)
  have l: "length (TextEncoder_encode [0x41, 0x64, 0x61]) \<le> 16"
    "length (TextEncoder_encode [0x48, 0x69]) \<le> 64"
    by (simp_all add: encode_Ada encode_Hi)
  have z: "filter (\<lambda>x. x \<noteq> 0) (TextEncoder_encode [0x41, 0x64, 0x61])
        = TextEncoder_encode [0x41, 0x64, 0x61]"
    "filter (\<lambda>x. x \<noteq> 0) (TextEncoder_encode [0x48, 0x69]) = TextEncoder_encode [0x48, 0x69]"
    by (simp_all add: encode_Ada encode_Hi)
  have p: "serializeGraffitiData [0x41, 0x64, 0x61] [0x48, 0x69]
      = Inr (zero_padded 16 [0x41, 0x64, 0x61] @ zero_padded 64 [0x48, 0x69])"
    by (simp add: serializeGraffitiData_eq encode_Ada encode_Hi)
  have t: "length [0, 0, 0, 0, 0, 0, 0, 0 :: byte] = 8" by simp
  show ?thesis
    by (rule text_round_trip [OF wf nb l z p t])
qed

text \<open>
  Claim C1 as stated does not hold. A name that starts with U+FEFF is within the byte limit
  and has no zero byte, yet the reader returns it without its first character, because the
  decoder drops a leading byte order mark. A message with an unpaired surrogate is within
  the limit too, and comes back with U+FFFD in its place, because the encoder writes that.
  The array covers its buffer.
\<close>

theorem text_round_trip_fails:
  "length (TextEncoder_encode [0xFEFF, 0x41, 0x64, 0x61]) \<le> 16
   \<and> length (TextEncoder_encode [0x41, 0xD800]) \<le> 64
   \<and> filter (\<lambda>x. x \<noteq> 0) (TextEncoder_encode [0xFEFF, 0x41, 0x64, 0x61])
       = TextEncoder_encode [0xFEFF, 0x41, 0x64, 0x61]
   \<and> filter (\<lambda>x. x \<noteq> 0) (TextEncoder_encode [0x41, 0xD800]) = TextEncoder_encode [0x41, 0xD800]
   \<and> serializeGraffitiData [0xFEFF, 0x41, 0x64, 0x61] [0x41, 0xD800]
       = Inr (zero_padded 16 [0xEF, 0xBB, 0xBF, 0x41, 0x64, 0x61]
              @ zero_padded 64 [0x41, 0xEF, 0xBF, 0xBD])
   \<and> read_record (whole ([1, 0, 0, 0] @ [0, 0, 0, 0, 0, 0, 0, 0]
          @ (zero_padded 16 [0xEF, 0xBB, 0xBF, 0x41, 0x64, 0x61]
             @ zero_padded 64 [0x41, 0xEF, 0xBF, 0xBD])
          @ [])) 4
       = Inr (\<lparr>timestamp = 0, name = [0x41, 0x64, 0x61], message = [0x41, 0xFFFD]\<rparr>, 92)
   \<and> [0x41, 0x64, 0x61] \<noteq> [0xFEFF, 0x41, 0x64, 0x61 :: code_unit]
   \<and> [0x41, 0xFFFD] \<noteq> [0x41, 0xD800 :: code_unit]"
proof -
  have enc: "TextEncoder_encode [0x41, 0xD800] = [0x41, 0xEF, 0xBF, 0xBD]"
    by (simp add: TextEncoder_encode_def utf8_encode_cp_def is_lead_def is_trail_def
        is_surrogate_def)
  have dec: "TextDecoder_decode [0x41, 0xEF, 0xBF, 0xBD] = [0x41, 0xFFFD]"
    by (simp add: TextDecoder_decode_def strip_bom_def utf16_units_def)
  have e: "entry_at (whole ([1, 0, 0, 0] @ [0, 0, 0, 0, 0, 0, 0, 0]
          @ (zero_padded 16 [0xEF, 0xBB, 0xBF, 0x41, 0x64, 0x61]
             @ zero_padded 64 [0x41, 0xEF, 0xBF, 0xBD])
          @ [])) (length [1, 0, 0, 0 :: byte])
      = \<lparr>timestamp = Number_of_BigInt
        (if le_nat [0, 0, 0, 0, 0, 0, 0, 0] < 2 ^ 63 then int (le_nat [0, 0, 0, 0, 0, 0, 0, 0])
         else int (le_nat [0, 0, 0, 0, 0, 0, 0, 0]) - 2 ^ 64),
      name = TextDecoder_decode (filter (\<lambda>x. x \<noteq> 0) [0xEF, 0xBB, 0xBF, 0x41, 0x64, 0x61]),
      message = TextDecoder_decode (filter (\<lambda>x. x \<noteq> 0) [0x41, 0xEF, 0xBF, 0xBD])\<rparr>"
    by (rule entry_at_payload) simp_all
  have len4: "length [1, 0, 0, 0 :: byte] = 4" by simp
  have r: "read_record (whole ([1, 0, 0, 0] @ [0, 0, 0, 0, 0, 0, 0, 0]
          @ (zero_padded 16 [0xEF, 0xBB, 0xBF, 0x41, 0x64, 0x61]
             @ zero_padded 64 [0x41, 0xEF, 0xBF, 0xBD])
          @ [])) 4
       = Inr (\<lparr>timestamp = 0, name = [0x41, 0x64, 0x61], message = [0x41, 0xFFFD]\<rparr>, 92)"
    using e [unfolded len4]
    by (simp add: read_record_eq buffer_whole length_zero_padded le_nat_def Number_of_BigInt_0
        decode_BOM_Ada dec)
  show ?thesis
    using r by (simp add: encode_BOM_Ada enc serializeGraffitiData_eq)
qed

section \<open>Records and their order\<close>

text \<open>
  Claim C3, as the code has it. Let the 88-byte window at offset \<open>4 + 88 * i\<close> lie in the
  account array. The record read there succeeds, and its entry is the one a successful
  parse has at position \<open>i\<close>. Its name is the text decoded from bytes 8 to 23 of the window
  with every zero byte removed, and its message is the text decoded from bytes 24 to 87
  with every zero byte removed. When the array starts at byte 0 of its underlying buffer,
  its timestamp is the number conversion of bytes 0 to 7 of the window taken as a
  little-endian two's complement 64-bit integer: that integer itself when its magnitude is
  below \<open>2 ^ 53\<close>.
\<close>

theorem record_layout:
  assumes "4 + 88 * i + 88 \<le> length (elems a)"
  shows "\<exists>m w v. w = take 88 (drop (4 + 88 * i) (elems a)) \<and> length w = 88
     \<and> v = signed_take_bit 63 (\<Sum>k<8. int (unat (w ! k)) * 256 ^ k)
     \<and> read_record a (4 + 88 * i) = Inr (m, 4 + 88 * i + 88)
     \<and> (\<forall>ms. parse_wall a = Inr ms \<and> i < length ms \<longrightarrow> ms ! i = m)
     \<and> name m = TextDecoder_decode (filter (\<lambda>x. x \<noteq> 0) (take 16 (drop 8 w)))
     \<and> message m = TextDecoder_decode (filter (\<lambda>x. x \<noteq> 0) (take 64 (drop 24 w)))
     \<and> (byteOffset a = 0 \<longrightarrow>
          timestamp m = Number_of_BigInt v \<and> (\<bar>v\<bar> < 2 ^ 53 \<longrightarrow> timestamp m = v))"
proof -
  define w where "w = take 88 (drop (4 + 88 * i) (elems a))"
  define v where "v = signed_take_bit 63 (\<Sum>k<8. int (unat (w ! k)) * 256 ^ k)"
  define m where "m = entry_at a (4 + 88 * i)"
  have lw: "length w = 88" using assms by (simp add: w_def)
  have room: "4 + 88 * i + 88 \<le> length (buffer a)"
    using assms length_elems_le [of a] by simp
  then have r: "read_record a (4 + 88 * i) = Inr (m, 4 + 88 * i + 88)"
    by (simp add: read_record_eq m_def)
  have p: "\<forall>ms. parse_wall a = Inr ms \<and> i < length ms \<longrightarrow> ms ! i = m"
    by (simp add: parse_wall_nth m_def)
  have nm: "name m = TextDecoder_decode (filter (\<lambda>x. x \<noteq> 0) (take 16 (drop 8 w)))"
    by (simp add: m_def w_def name_entry_at)
  have msg: "message m = TextDecoder_decode (filter (\<lambda>x. x \<noteq> 0) (take 64 (drop 24 w)))"
    by (simp add: m_def w_def message_entry_at)
  have t: "timestamp m = Number_of_BigInt v \<and> (\<bar>v\<bar> < 2 ^ 53 \<longrightarrow> timestamp m = v)"
    if zero: "byteOffset a = 0"
  proof -
    have nthw: "buffer a ! (4 + 88 * i + k) = w ! k" if "k < 8" for k
    proof -
      have "buffer a ! (4 + 88 * i + k) = elems a ! (4 + 88 * i + k)"
        using zero that assms by (intro elems_at_offset_0) simp_all
      also have "\<dots> = w ! k" using that assms by (simp add: w_def)
      finally show ?thesis .
    qed
    have "timestamp m = Number_of_BigInt v"
      using room by (simp add: m_def timestamp_entry_at nthw v_def)
    then show ?thesis by (simp add: Number_of_BigInt_exact)
  qed
  show ?thesis
  proof (intro exI conjI)
    show "w = take 88 (drop (4 + 88 * i) (elems a))" by (rule w_def)
    show "length w = 88" by (rule lw)
    show "v = signed_take_bit 63 (\<Sum>k<8. int (unat (w ! k)) * 256 ^ k)" by (rule v_def)
    show "read_record a (4 + 88 * i) = Inr (m, 4 + 88 * i + 88)" by (rule r)
    show "\<forall>ms. parse_wall a = Inr ms \<and> i < length ms \<longrightarrow> ms ! i = m" by (rule p)
    show "name m = TextDecoder_decode (filter (\<lambda>x. x \<noteq> 0) (take 16 (drop 8 w)))"
      by (rule nm)
    show "message m = TextDecoder_decode (filter (\<lambda>x. x \<noteq> 0) (take 64 (drop 24 w)))"
      by (rule msg)
    show "byteOffset a = 0 \<longrightarrow>
        timestamp m = Number_of_BigInt v \<and> (\<bar>v\<bar> < 2 ^ 53 \<longrightarrow> timestamp m = v)"
    proof (rule impI)
      assume "byteOffset a = 0"
      then show "timestamp m = Number_of_BigInt v \<and> (\<bar>v\<bar> < 2 ^ 53 \<longrightarrow> timestamp m = v)"
        by (rule t)
    qed
  qed
qed

theorem record_layout_witness:
  "\<exists>m. read_record (whole sample_wall) (4 + 88 * 1) = Inr (m, 4 + 88 * 1 + 88)
     \<and> timestamp m = 300 \<and> name m = [0x62, 0x42] \<and> message m = []"
proof -
  have a: "4 + 88 * 1 + 88 \<le> length (elems (whole sample_wall))"
    by (simp add: elems_whole length_sample_wall)
  obtain m where m: "read_record (whole sample_wall) (4 + 88 * 1) = Inr (m, 4 + 88 * 1 + 88)"
    "\<forall>ms. parse_wall (whole sample_wall) = Inr ms \<and> 1 < length ms \<longrightarrow> ms ! 1 = m"
    using record_layout [OF a] by blast
  have "sample_entries ! 1 = m"
    using m(2) parse_sample_wall by (simp add: sample_entries_def)
  then have "timestamp m = 300 \<and> name m = [0x62, 0x42] \<and> message m = []"
    by (auto simp: sample_entries_def)
  with m(1) show ?thesis by blast
qed

text \<open>
  Claim C3 as stated does not hold: the timestamp of an entry is a JavaScript number. The
  record whose timestamp bytes hold \<open>2 ^ 53 + 1\<close>, in an array that covers its buffer, is
  presented with the timestamp \<open>2 ^ 53\<close>.
\<close>

theorem timestamp_rounded:
  "int (le_nat [1, 0, 0, 0, 0, 0, 0x20, 0]) = 9007199254740993
   \<and> parse_wall (whole ([1, 0, 0, 0] @ [1, 0, 0, 0, 0, 0, 0x20, 0] @ replicate 16 0
        @ replicate 64 0 @ []))
       = Inr [\<lparr>timestamp = 9007199254740992, name = [], message = []\<rparr>]"
proof -
  have l: "le_nat [1, 0, 0, 0, 0, 0, 0x20, 0] = 9007199254740993"
    by (simp add: le_nat_def)
  have "bit_length 9007199254740993 = Suc 53"
    by (rule bit_length_exact) simp_all
  then have n: "Number_of_BigInt 9007199254740993 = 9007199254740992"
    by (simp add: Number_of_BigInt_def Let_def)
  have "entry_at (whole ([1, 0, 0, 0] @ [1, 0, 0, 0, 0, 0, 0x20, 0] @ replicate 16 0
        @ replicate 64 0 @ [])) 4
      = \<lparr>timestamp = Number_of_BigInt
        (if le_nat [1, 0, 0, 0, 0, 0, 0x20, 0] < 2 ^ 63
         then int (le_nat [1, 0, 0, 0, 0, 0, 0x20, 0])
         else int (le_nat [1, 0, 0, 0, 0, 0, 0x20, 0]) - 2 ^ 64),
      name = TextDecoder_decode (filter (\<lambda>x. x \<noteq> 0) (replicate 16 0)),
      message = TextDecoder_decode (filter (\<lambda>x. x \<noteq> 0) (replicate 64 0))\<rparr>"
    by (rule entry_at_fields) simp_all
  then have e: "entry_at (whole ([1, 0, 0, 0] @ [1, 0, 0, 0, 0, 0, 0x20, 0] @ replicate 16 0
        @ replicate 64 0 @ [])) 4
      = \<lparr>timestamp = 9007199254740992, name = [], message = []\<rparr>"
    by (simp add: l n TextDecoder_decode_Nil)
  have "parse_wall (whole ([1, 0, 0, 0] @ [1, 0, 0, 0, 0, 0, 0x20, 0] @ replicate 16 0
        @ replicate 64 0 @ []))
       = Inr [\<lparr>timestamp = 9007199254740992, name = [], message = []\<rparr>]"
    using e by (simp add: parse_wall_eq buffer_whole le_nat_def)
  with l show ?thesis by simp
qed

text \<open>
  Claim C6. After a successful read the entries presented are the decoded entries sorted
  by the stable array sort: timestamps are in descending order, the entries are the same
  ones, and the entries of any one timestamp keep their order in the buffer.
\<close>

theorem recency_view_stable_sort:
  assumes "data acct = Some bytes" and "4 \<le> length_u8 bytes" and "parse_wall bytes = Inr ms"
  shows "wallData (fetchWallData (Inr (Some acct)) st) = Array_sort by_recency ms
     \<and> sorted_wrt (\<lambda>a b. timestamp b \<le> timestamp a) (Array_sort by_recency ms)
     \<and> mset (Array_sort by_recency ms) = mset ms
     \<and> (\<forall>t. filter (\<lambda>m. timestamp m = t) (Array_sort by_recency ms)
              = filter (\<lambda>m. timestamp m = t) ms)"
  using assms
  by (simp add: fetchWallData_def sorted_Array_sort_by_recency mset_Array_sort
      filter_Array_sort_by_recency)

theorem recency_view_stable_sort_witness:
  "map timestamp (wallData (fetchWallData (Inr (Some \<lparr>data = Some (whole sample_wall)\<rparr>))
       \<lparr>wallData = [], error = None\<rparr>)) = [300, 300, 200, 100]
   \<and> map name (wallData (fetchWallData (Inr (Some \<lparr>data = Some (whole sample_wall)\<rparr>))
       \<lparr>wallData = [], error = None\<rparr>))
       = [[0x62, 0x42], [0x64, 0x44], [0x63, 0x43], [0x61, 0x41]]"
proof -
  have a: "data \<lparr>data = Some (whole sample_wall)\<rparr> = Some (whole sample_wall)" by simp
  have b: "4 \<le> length_u8 (whole sample_wall)" by (simp add: length_u8_whole length_sample_wall)
  have "wallData (fetchWallData (Inr (Some \<lparr>data = Some (whole sample_wall)\<rparr>))
       \<lparr>wallData = [], error = None\<rparr>) = Array_sort by_recency sample_entries"
    using recency_view_stable_sort [OF a b parse_sample_wall] by blast
  then show ?thesis
    by (simp add: sample_entries_def Array_sort_def by_recency_def)
qed

text \<open>
  Claim C7 does not hold of the code. The array that covers a 92-byte buffer and the array
  of the same 92 bytes at offset 4 of a 96-byte buffer have the same elements, hence the
  same 88-byte window at position 0. The names and messages read are the same, but the
  timestamps are not: the timestamp is read at the array's offset in the underlying buffer,
  which for the second array is four bytes in front of the window.
\<close>

theorem timestamp_read_outside_window:
  "elems (view [1, 0, 0, 0] one_record_wall []) = elems (whole one_record_wall)
   \<and> take 88 (drop 4 (elems (view [1, 0, 0, 0] one_record_wall [])))
       = take 88 (drop 4 (elems (whole one_record_wall)))
   \<and> parse_wall (whole one_record_wall)
       = Inr [\<lparr>timestamp = 100, name = [0x61, 0x41], message = []\<rparr>]
   \<and> parse_wall (view [1, 0, 0, 0] one_record_wall [])
       = Inr [\<lparr>timestamp = 429496729601, name = [0x61, 0x41], message = []\<rparr>]"
proof -
  have w: "parse_wall (whole ([1, 0, 0, 0] @ concat [sample_record 100 0 0x61 0x41] @ []))
      = Inr (map (\<lambda>r. entry_at (whole r) 0) [sample_record 100 0 0x61 0x41])"
    by (rule parse_wall_records) (simp_all add: le_nat_def length_sample_record)
  have "Number_of_BigInt 100 = 100" by (simp add: Number_of_BigInt_exact)
  with w have p1: "parse_wall (whole one_record_wall)
       = Inr [\<lparr>timestamp = 100, name = [0x61, 0x41], message = []\<rparr>]"
    by (simp add: one_record_wall_def entry_at_sample_record decode_sample_names)
  have ts: "Uint8Array_slice ([1, 0, 0, 0] @ one_record_wall @ []) 4 12
      = [1, 0, 0, 0, 100, 0, 0, 0]"
    by (simp add: Uint8Array_slice_def one_record_wall_def sample_record_def)
  have l: "le_nat [1, 0, 0, 0, 100, 0, 0, 0] = 429496729601"
    by (simp add: le_nat_def)
  have n: "Number_of_BigInt 429496729601 = 429496729601"
    by (simp add: Number_of_BigInt_exact)
  have f1: "Uint8Array_slice one_record_wall 12 28 = [0x61, 0, 0x41] @ replicate 13 0"
    by (simp add: Uint8Array_slice_def one_record_wall_def sample_record_def)
  have f2: "Uint8Array_slice one_record_wall 28 92 = replicate 64 0"
    by (simp add: Uint8Array_slice_def one_record_wall_def sample_record_def)
  have e: "entry_at (view [1, 0, 0, 0] one_record_wall []) 4
      = \<lparr>timestamp = 429496729601, name = [0x61, 0x41], message = []\<rparr>"
    using ts f1 f2
    by (simp add: entry_at_def buffer_view elems_view Let_def l n decode_sample_names
        TextDecoder_decode_Nil)
  have len: "length one_record_wall = 92"
    by (simp add: one_record_wall_def length_sample_record)
  have b4: "4 \<le> length (buffer (view [1, 0, 0, 0] one_record_wall []))"
    by (simp add: buffer_view)
  have c: "le_nat (take 4 (buffer (view [1, 0, 0, 0] one_record_wall []))) = 1"
    by (simp add: buffer_view le_nat_def)
  have p2: "parse_wall (view [1, 0, 0, 0] one_record_wall [])
       = Inr [\<lparr>timestamp = 429496729601, name = [0x61, 0x41], message = []\<rparr>]"
    using e by (simp add: parse_wall_eq [OF b4] c) (simp add: buffer_view len)
  show ?thesis
    using p1 p2 by (simp add: elems_view elems_whole)
qed

text \<open>
  Claim C10. Whenever the buffer is parsed successfully, no entry has a NUL character in
  its name or in its message: zero bytes are removed before decoding, and the decoder
  emits no NUL from non-zero bytes.
\<close>

theorem decoded_text_has_no_NUL:
  assumes "parse_wall buf = Inr ms" and "m \<in> set ms"
  shows "0 \<notin> set (name m) \<and> 0 \<notin> set (message m)"
proof -
  obtain i where i: "i < length ms" "m = ms ! i"
    using assms(2) by (auto simp: in_set_conv_nth)
  then have "m = entry_at buf (4 + 88 * i)"
    using assms(1) by (simp add: parse_wall_nth)
  then show ?thesis using entry_at_no_NUL [of buf "4 + 88 * i"] by simp
qed

theorem decoded_text_has_no_NUL_witness:
  "0 \<notin> set (name \<lparr>timestamp = 300, name = [0x62, 0x42], message = []\<rparr>)
   \<and> 0 \<notin> set (message \<lparr>timestamp = 300, name = [0x62, 0x42], message = []\<rparr>)"
proof -
  have "\<lparr>timestamp = 300, name = [0x62, 0x42], message = []\<rparr> \<in> set sample_entries"
    by (simp add: sample_entries_def)
  with parse_sample_wall show ?thesis
    by (rule decoded_text_has_no_NUL)
qed

section \<open>The transaction envelope\<close>

text \<open>
  Claim C8. When the form and the wallet pass the handler's check, the key texts are read,
  the message is serialized and hashed, and the signer returns a signature text for the
  hex form of the hash, the handler submits exactly the envelope with version 0, the
  message it built, and one signature: the base64-decoded signature text without its first
  two bytes.
\<close>

theorem handleAddToWall_envelope:
  assumes "trim msg \<noteq> []" and "trim nm \<noteq> []" and "isAccountCreated" and "isConnected wallet"
    and "fromHex lib PROGRAM_PUBKEY = Inr program"
    and "fromHex lib (publicKey wallet) = Inr signer"
    and "messageObj = \<lparr>signers = [signer], instructions =
          [\<lparr>program_id = program,
            accounts = [\<lparr>pubkey = signer, is_signer = True, is_writable = False\<rparr>,
                        \<lparr>pubkey = accountPubkey, is_signer = False, is_writable = True\<rparr>],
            instruction_data = zero_padded 16 (TextEncoder_encode nm)
                                 @ zero_padded 64 (TextEncoder_encode msg)\<rparr>]\<rparr>"
    and "serialize lib messageObj = Inr messageBytes"
    and "hash lib messageObj = Inr h"
    and "signMessage (to_hex h) = Inr signature"
  shows "handleAddToWall lib PROGRAM_PUBKEY accountPubkey signMessage wallet isAccountCreated nm msg
         = Inr \<lparr>version = 0, signatures = [drop 2 (from_base64 lib signature)],
                 tx_message = messageObj\<rparr>"
  using assms(1-6,8-10) unfolding assms(7)
  by (simp add: handleAddToWall_def serializeGraffitiData_eq Let_def slice_from_2)


theorem handleAddToWall_envelope_witness:
  "map_sum id (\<lambda>tx. (version tx, signatures tx, signers (tx_message tx)))
     (handleAddToWall
        \<lparr>fromHex = (\<lambda>k. case k of None \<Rightarrow> Inl (External ''no key'') | Some s \<Rightarrow> Inr (map ucast s)),
         serialize = (\<lambda>m. Inr []), hash = (\<lambda>m. Inr [0xAB, 0xCD]),
         from_base64 = (\<lambda>s. [0x41, 0x42, 1, 2, 3])\<rparr>
        (Some [0x30]) [9] (\<lambda>m. Inr [0x51]) \<lparr>isConnected = True, publicKey = Some [0x31]\<rparr> True
        [0x41, 0x64, 0x61] [0x48, 0x69])
   = Inr (0, [[1, 2, 3]], [[0x31]])"
proof -
  let ?lib = "\<lparr>fromHex = (\<lambda>k. case k of None \<Rightarrow> Inl (External ''no key'')
                                    | Some s \<Rightarrow> Inr (map ucast s)),
         serialize = (\<lambda>m. Inr []), hash = (\<lambda>m. Inr [0xAB, 0xCD]),
         from_base64 = (\<lambda>s. [0x41, 0x42, 1, 2, 3])\<rparr>"
  let ?wallet = "\<lparr>isConnected = True, publicKey = Some [0x31]\<rparr>"
  let ?M = "\<lparr>signers = [[0x31]], instructions =
          [\<lparr>program_id = [0x30],
            accounts = [\<lparr>pubkey = [0x31], is_signer = True, is_writable = False\<rparr>,
                        \<lparr>pubkey = [9], is_signer = False, is_writable = True\<rparr>],
            instruction_data = zero_padded 16 (TextEncoder_encode [0x41, 0x64, 0x61])
                                 @ zero_padded 64 (TextEncoder_encode [0x48, 0x69])\<rparr>]\<rparr>"
  have t: "trim [0x48, 0x69] \<noteq> []" "trim [0x41, 0x64, 0x61] \<noteq> []"
    by (simp_all add: trim_def is_white_space_def)
  have c: "True" "isConnected ?wallet" by simp_all
  have k: "fromHex ?lib (Some [0x30]) = Inr [0x30]" "fromHex ?lib (publicKey ?wallet) = Inr [0x31]"
    by simp_all
  have m: "?M = ?M" by (rule refl)
  have s: "serialize ?lib ?M = Inr []" "hash ?lib ?M = Inr [0xAB, 0xCD]" by simp_all
  have g: "(\<lambda>m. Inr [0x51] :: exn + jsstring) (to_hex [0xAB, 0xCD]) = Inr [0x51]" by simp
  show ?thesis
    using handleAddToWall_envelope [OF t c k m s g] by simp
qed

end
